theory Spec2Isabelle
  imports Main "HOL-Library.Sublist"
begin

section \<open>Strings and the two regular expressions\<close>

text \<open>
  A JavaScript string is a sequence of code units; here it is a \<open>string\<close> whose characters
  stand for the code units 0..255 (ASCII and Latin-1). \<open>length\<close>, \<open>take\<close> and \<open>drop\<close> are
  \<open>.length\<close>, \<open>substring(0, n)\<close> / \<open>slice(0, n)\<close> and \<open>substring(n)\<close> / \<open>slice(n)\<close> for a
  non-negative \<open>n\<close>: all of them clamp at the end of the string, as the JavaScript ones do.
\<close>

definition is_word_char :: "char \<Rightarrow> bool" where
  \<comment> \<open>the class \<open>\w\<close> of a regular expression without flags: \<open>[A-Za-z0-9_]\<close>\<close>
  "is_word_char c =
     (let n = (of_char c :: nat)
      in (48 \<le> n \<and> n \<le> 57) \<or> (65 \<le> n \<and> n \<le> 90) \<or> n = 95 \<or> (97 \<le> n \<and> n \<le> 122))"

definition toLowerCase_char :: "char \<Rightarrow> char" where
  \<comment> \<open>\<open>A-Z\<close> and the Latin-1 capitals (all of 192..222 but the multiplication sign 215)
      have their lower-case form 32 code units higher; every other unit is kept\<close>
  "toLowerCase_char c =
     (let n = (of_char c :: nat)
      in if (65 \<le> n \<and> n \<le> 90) \<or> (192 \<le> n \<and> n \<le> 222 \<and> n \<noteq> 215)
         then char_of (n + 32) else c)"

definition toLowerCase :: "string \<Rightarrow> string" where
  "toLowerCase s = map toLowerCase_char s"

fun includes_str :: "string \<Rightarrow> string \<Rightarrow> bool" where
  \<comment> \<open>\<open>s.includes(q)\<close>: \<open>q\<close> occurs in \<open>s\<close> at some position\<close>
  "includes_str [] q = (q = [])"
| "includes_str (c # cs) q = (prefix q (c # cs) \<or> includes_str cs q)"

definition attempt_word_run :: "string \<Rightarrow> string option" where
  \<comment> \<open>one attempt of \<open>/(\w{3,})$/\<close> at the head of \<open>s\<close>: the greedy \<open>\w{3,}\<close> takes the whole
      run of word characters; \<open>$\<close> then asks for the end of the input, and backtracking to a
      shorter run cannot help, since a word character follows it\<close>
  "attempt_word_run s =
     (let run = takeWhile is_word_char s
      in if 3 \<le> length run \<and> dropWhile is_word_char s = [] then Some run else None)"

fun match_word_run :: "string \<Rightarrow> string option" where
  \<comment> \<open>\<open>s.match(/(\w{3,})$/)\<close>: the start positions are tried from left to right, the first
      attempt that succeeds gives group 1; \<open>None\<close> is the \<open>null\<close> of no match\<close>
  "match_word_run [] = attempt_word_run []"
| "match_word_run (c # cs) =
     (case attempt_word_run (c # cs) of
        Some m \<Rightarrow> Some m
      | None \<Rightarrow> match_word_run cs)"

definition trailing_word_run :: "string \<Rightarrow> string" where
  \<comment> \<open>the specification's words: the maximal contiguous run of word characters at the
      end of \<open>s\<close>\<close>
  "trailing_word_run s = rev (takeWhile is_word_char (rev s))"


section \<open>The message composer (ExpandingInput)\<close>

text \<open>
  The dictionary \<open>autoCompleteList\<close> is an object from display tokens to tag arrays, or
  \<open>null\<close>/\<open>undefined\<close> (\<open>None\<close>). An object is modelled by the list of its own properties in
  the order they were created (insertion order); its keys are distinct.
\<close>

type_synonym dict = "(string \<times> string list) list"

text \<open>
  \<open>Object.keys\<close> does not enumerate in insertion order throughout: the keys that are array
  indices (the canonical decimal form of an integer from 0 to \<open>2^32 - 2\<close>: digits only, no
  leading zero) come first, in ascending numeric order, and the other keys follow in
  insertion order.
\<close>

definition is_digit :: "char \<Rightarrow> bool" where
  "is_digit c = (let n = (of_char c :: nat) in 48 \<le> n \<and> n \<le> 57)"

definition digits_value :: "string \<Rightarrow> nat" where
  \<comment> \<open>the number a string of decimal digits denotes\<close>
  "digits_value k = foldl (\<lambda>a c. 10 * a + (of_char c - 48)) 0 k"

definition is_array_index :: "string \<Rightarrow> bool" where
  "is_array_index k =
     (k \<noteq> [] \<and> list_all is_digit k \<and> (hd k \<noteq> CHR ''0'' \<or> length k = 1) \<and>
      digits_value k < 4294967295)"

definition Object_keys :: "(string \<times> 'v) list \<Rightarrow> string list" where
  "Object_keys d =
     (let ks = map fst d
      in sort_key digits_value (filter is_array_index ks) @
         filter (\<lambda>k. \<not> is_array_index k) ks)"

record props =
  disabled :: bool
  autoCompleteList :: "dict option"
  ref_current :: bool  \<comment> \<open>whether \<open>ref && "current" in ref ? ref.current : null\<close> is the textarea\<close>

text \<open>
  The state of the component: the four \<open>useState\<close> cells, and the selection of the textarea
  element. The selection is written by the browser before a change event (the event carries
  it) and by \<open>setSelectionRange\<close>; the handlers only read it otherwise.
\<close>

record composer =
  inputValue :: string
  filteredSuggestions :: "string list"
  showSuggestions :: bool
  selectedIndex :: int
  selectionStart :: nat
  selectionEnd :: nat

definition initial :: composer where
  "initial = \<lparr>inputValue = [], filteredSuggestions = [], showSuggestions = False,
     selectedIndex = 0, selectionStart = 0, selectionEnd = 0\<rparr>"

record change_event =
  target_value :: string
  target_selectionStart :: nat
  target_selectionEnd :: nat

record key_event =
  key :: string
  shiftKey :: bool

datatype error = TypeError

record outcome =
  state :: composer
  defaultPrevented :: bool
  submitted :: "string option"  \<comment> \<open>the argument of \<open>onSubmit\<close>, when it was called\<close>
  thrown :: "error option"

definition suggestions :: "props \<Rightarrow> string list" where
  \<comment> \<open>\<open>Object.keys(autoCompleteList || {})\<close>\<close>
  "suggestions p = (case autoCompleteList p of None \<Rightarrow> [] | Some d \<Rightarrow> Object_keys d)"

definition suggestions_visible :: "composer \<Rightarrow> bool" where
  \<comment> \<open>the condition under which the list is rendered and the keyboard contract is active\<close>
  "suggestions_visible s = (showSuggestions s \<and> length (filteredSuggestions s) > 0)"

definition handleChange :: "props \<Rightarrow> change_event \<Rightarrow> composer \<Rightarrow> composer" where
  "handleChange p e s =
     (let value = target_value e;
          s1 = s\<lparr>inputValue := value,
                 selectionStart := target_selectionStart e,
                 selectionEnd := target_selectionEnd e\<rparr>;
          cursorPos = target_selectionStart e;
          textBeforeCursor = take cursorPos value
      in case match_word_run textBeforeCursor of
           Some m \<Rightarrow>
             (let query = toLowerCase m;
                  filtered = filter (\<lambda>k. includes_str (toLowerCase k) query) (suggestions p)
              in s1\<lparr>filteredSuggestions := filtered,
                    showSuggestions := (length filtered > 0),
                    selectedIndex := 0\<rparr>)
         | None \<Rightarrow> s1\<lparr>showSuggestions := False, selectedIndex := 0\<rparr>)"

definition handleSubmit :: "props \<Rightarrow> composer \<Rightarrow> composer \<times> string option" where
  "handleSubmit p s =
     (if disabled p \<or> length (inputValue s) = 0 then (s, None)
      else (s\<lparr>inputValue := [], showSuggestions := False\<rparr>, Some (inputValue s)))"

fun to_string :: "string option \<Rightarrow> string" where
  \<comment> \<open>a value that is a string or \<open>undefined\<close>, as a template literal or \<open>+\<close> prints it\<close>
  "to_string None = ''undefined''"
| "to_string (Some x) = x"

fun lookup :: "dict \<Rightarrow> string \<Rightarrow> string list option" where
  \<comment> \<open>\<open>d[k]\<close> on own properties: \<open>None\<close> is \<open>undefined\<close>\<close>
  "lookup [] k = None"
| "lookup ((k', v) # d) k = (if k' = k then Some v else lookup d k)"

fun tags_include :: "string list option \<Rightarrow> string \<Rightarrow> bool" where
  \<comment> \<open>\<open>tags?.includes(t)\<close> used as a condition: \<open>undefined\<close> is falsy\<close>
  "tags_include None t = False"
| "tags_include (Some ts) t = (t \<in> set ts)"

definition insertSuggestionAtCaret ::
  "props \<Rightarrow> string option \<Rightarrow> composer \<Rightarrow> composer \<times> error option" where
  \<comment> \<open>The argument is a string, or \<open>undefined\<close> when \<open>filteredSuggestions[selectedIndex]\<close>
      is read out of range. The result is the state once the state setters and the deferred
      \<open>setSelectionRange\<close> have run (it clamps at the length of the new value), and the
      TypeError of indexing a \<open>null\<close> dictionary (raised before any setter) or of
      \<open>undefined.length\<close> (raised in the deferred callback, after the setters).\<close>
  "insertSuggestionAtCaret p suggestion s =
     (if \<not> ref_current p then (s, None)
      else
        let start = selectionStart s;
            end = selectionEnd s;
            textBefore = take start (inputValue s);
            textAfter = drop end (inputValue s);
            replaceStart = (case match_word_run textBefore of
                              Some m \<Rightarrow> start - length m
                            | None \<Rightarrow> start)
        in case autoCompleteList p of
             None \<Rightarrow> (s, Some TypeError)
           | Some d \<Rightarrow>
               (let tags = lookup d (to_string suggestion);
                    wrappedSuggestion =
                      (if tags_include tags ''uniqueKey''
                       then Some (''['' @ to_string suggestion @ '']'')
                       else if tags_include tags ''glossary''
                       then Some (''<'' @ to_string suggestion @ ''>'')
                       else suggestion);
                    newValue = take replaceStart (inputValue s) @ to_string wrappedSuggestion
                                 @ '' '' @ textAfter;
                    s1 = s\<lparr>inputValue := newValue, showSuggestions := False,
                           selectedIndex := 0\<rparr>
                in case wrappedSuggestion of
                     None \<Rightarrow> (s1, Some TypeError)
                   | Some w \<Rightarrow>
                       (let newPos = min (replaceStart + length w + 1) (length newValue)
                        in (s1\<lparr>selectionStart := newPos, selectionEnd := newPos\<rparr>, None))))"

definition nth_or_undefined :: "string list \<Rightarrow> int \<Rightarrow> string option" where
  \<comment> \<open>\<open>xs[i]\<close>: \<open>undefined\<close> out of range\<close>
  "nth_or_undefined xs i = (if 0 \<le> i \<and> i < int (length xs) then Some (xs ! nat i) else None)"

definition handleKeyPress :: "props \<Rightarrow> key_event \<Rightarrow> composer \<Rightarrow> outcome" where
  \<comment> \<open>\<open>after_block\<close> is the code that follows the block of the suggestion contract, reached
      when the block is skipped or none of its four branches returns\<close>
  "handleKeyPress p e s =
     (let after_block =
            (if key e = ''Enter'' \<and> \<not> shiftKey e then
               (let (s', sub) = handleSubmit p s
                in \<lparr>state = s', defaultPrevented = True, submitted = sub, thrown = None\<rparr>)
             else \<lparr>state = s, defaultPrevented = False, submitted = None, thrown = None\<rparr>)
      in if suggestions_visible s then
           (if key e = ''ArrowDown'' then
              \<lparr>state = s\<lparr>selectedIndex :=
                   (if selectedIndex s < int (length (filteredSuggestions s)) - 1
                    then selectedIndex s + 1 else selectedIndex s)\<rparr>,
               defaultPrevented = True, submitted = None, thrown = None\<rparr>
            else if key e = ''ArrowUp'' then
              \<lparr>state = s\<lparr>selectedIndex :=
                   (if selectedIndex s > 0 then selectedIndex s - 1 else selectedIndex s)\<rparr>,
               defaultPrevented = True, submitted = None, thrown = None\<rparr>
            else if key e = ''Tab'' then
              (let (s', err) = insertSuggestionAtCaret p
                                 (nth_or_undefined (filteredSuggestions s) (selectedIndex s)) s
               in \<lparr>state = s', defaultPrevented = True, submitted = None, thrown = err\<rparr>)
            else if key e = ''Escape'' then
              \<lparr>state = s\<lparr>showSuggestions := False\<rparr>,
               defaultPrevented = True, submitted = None, thrown = None\<rparr>
            else after_block)
         else after_block)"

text \<open>
  The list items exist only while the list is rendered, one per entry of
  \<open>filteredSuggestions\<close>: a pointer event on item \<open>i\<close> presupposes both.
\<close>

definition onMouseEnter :: "nat \<Rightarrow> composer \<Rightarrow> composer" where
  "onMouseEnter i s =
     (if suggestions_visible s \<and> i < length (filteredSuggestions s)
      then s\<lparr>selectedIndex := int i\<rparr> else s)"

definition onClick :: "props \<Rightarrow> nat \<Rightarrow> composer \<Rightarrow> composer \<times> error option" where
  "onClick p i s =
     (if suggestions_visible s \<and> i < length (filteredSuggestions s)
      then insertSuggestionAtCaret p (Some (filteredSuggestions s ! i)) s else (s, None))"

text \<open>
  The operations the user can perform on the composer: a text change, a key press, moving the
  pointer onto list item \<open>i\<close>, clicking list item \<open>i\<close>, and clicking the send button. The
  properties of the component may differ from one operation to the next.
\<close>

datatype operation =
    Change change_event
  | KeyDown key_event
  | MouseEnter nat
  | Click nat
  | SubmitClick

fun step :: "props \<Rightarrow> operation \<Rightarrow> composer \<Rightarrow> composer" where
  "step p (Change e) s = handleChange p e s"
| "step p (KeyDown e) s = state (handleKeyPress p e s)"
| "step p (MouseEnter i) s = onMouseEnter i s"
| "step p (Click i) s = fst (onClick p i s)"
| "step p SubmitClick s = fst (handleSubmit p s)"

fun run :: "(props \<times> operation) list \<Rightarrow> composer \<Rightarrow> composer" where
  "run [] s = s"
| "run ((p, x) # xs) s = run xs (step p x s)"

definition index_in_range :: "composer \<Rightarrow> bool" where
  "index_in_range s =
     (filteredSuggestions s \<noteq> [] \<longrightarrow>
        0 \<le> selectedIndex s \<and> selectedIndex s \<le> int (length (filteredSuggestions s)) - 1)"

section \<open>Message options in local storage (messageOptions.ts)\<close>

record IMessageOptions =
  secure_data :: bool
  debug :: bool

text \<open>
  The object kept under the key \<open>message_options\<close>: its own properties, from connection ids
  to option records. A value that is \<open>null\<close> (the migration loop tests for a falsy value) is
  \<open>None\<close>. The keys of an object are distinct; this module looks properties up by name only,
  so the order of the list plays no part.
\<close>

type_synonym IStorageMessageOptions = "(string \<times> IMessageOptions option) list"

text \<open>
  The two items of \<open>localStorage\<close> this module uses. An absent item is \<open>None\<close>. The item
  \<open>message_options\<close> holds a JSON text, which only \<open>JSON.stringify\<close> of such an object
  writes; it is represented by the object that \<open>JSON.parse\<close> gives back for it.
\<close>

record storage =
  message_options :: "IStorageMessageOptions option"
  message_options_migration_v1 :: "string option"

definition MIGRATION_KEY_V1 :: string where
  "MIGRATION_KEY_V1 = ''message_options_migration_v1''"

datatype access = GetItem string | SetItem string

fun is_write :: "access \<Rightarrow> bool" where
  "is_write (SetItem k) = True"
| "is_write (GetItem k) = False"

fun truthy :: "string option \<Rightarrow> bool" where
  \<comment> \<open>a string or \<open>null\<close> used as a condition: \<open>null\<close> and the empty string are falsy\<close>
  "truthy None = False"
| "truthy (Some v) = (v \<noteq> [])"

fun parse_message_options :: "IStorageMessageOptions option \<Rightarrow> IStorageMessageOptions" where
  \<comment> \<open>\<open>JSON.parse(localStorage.getItem("message_options") ?? "{}")\<close>\<close>
  "parse_message_options None = []"
| "parse_message_options (Some m) = m"

fun property :: "IStorageMessageOptions \<Rightarrow> string \<Rightarrow> IMessageOptions option option" where
  \<comment> \<open>the own property \<open>k\<close> of the object: \<open>None\<close> when there is none, else its value\<close>
  "property [] k = None"
| "property ((k', v) # m) k = (if k' = k then Some v else property m k)"

text \<open>
  The object that \<open>JSON.parse\<close> returns inherits from \<open>Object.prototype\<close>, and both \<open>k in m\<close>
  and \<open>m[k]\<close> follow the prototype chain: for a name of \<open>Object.prototype\<close> that is no own
  property, \<open>k in m\<close> is true and \<open>m[k]\<close> is the inherited member, which is no option
  record. A returned value is therefore an option record, \<open>null\<close>, or the member of
  \<open>Object.prototype\<close> of a given name.
\<close>

datatype returned = Options IMessageOptions | Null | Inherited string

definition object_prototype_names :: "string list" where
  "object_prototype_names =
     [''constructor'', ''hasOwnProperty'', ''isPrototypeOf'', ''propertyIsEnumerable'',
      ''toLocaleString'', ''toString'', ''valueOf'', ''__proto__'',
      ''__defineGetter__'', ''__defineSetter__'', ''__lookupGetter__'', ''__lookupSetter__'']"

definition has_property :: "IStorageMessageOptions \<Rightarrow> string \<Rightarrow> bool" where
  \<comment> \<open>\<open>k in m\<close>\<close>
  "has_property m k = (property m k \<noteq> None \<or> k \<in> set object_prototype_names)"

definition get_property :: "IStorageMessageOptions \<Rightarrow> string \<Rightarrow> returned" where
  \<comment> \<open>\<open>m[k]\<close> where \<open>k in m\<close> holds: the own property if there is one, else the inherited member\<close>
  "get_property m k =
     (case property m k of
        Some (Some v) \<Rightarrow> Options v
      | Some None \<Rightarrow> Null
      | None \<Rightarrow> Inherited k)"

fun force_secure_data :: "string \<times> IMessageOptions option \<Rightarrow> string \<times> IMessageOptions option" where
  \<comment> \<open>the body of the \<open>forEach\<close> over \<open>Object.keys\<close>, the own properties: a truthy value
      gets \<open>secure_data = false\<close>\<close>
  "force_secure_data (k, None) = (k, None)"
| "force_secure_data (k, Some v) = (k, Some (v\<lparr>secure_data := False\<rparr>))"

definition plain_read ::
  "IMessageOptions \<Rightarrow> string \<Rightarrow> storage \<Rightarrow> returned" where
  \<comment> \<open>the last seven lines of \<open>readMessageOptionsFromLocalStorage\<close>\<close>
  "plain_read DEFAULT_OPTIONS connection_id st =
     (let allMessageOptions = parse_message_options (message_options st)
      in if has_property allMessageOptions connection_id
         then get_property allMessageOptions connection_id
         else Options DEFAULT_OPTIONS)"

definition readMessageOptionsFromLocalStorage ::
  "IMessageOptions \<Rightarrow> string option \<Rightarrow> storage
     \<Rightarrow> returned \<times> storage \<times> access list" where
  \<comment> \<open>\<open>DEFAULT_OPTIONS\<close> is imported from a module that is not part of the sources, so it is
      a parameter. The connection id is \<open>None\<close> for \<open>undefined\<close>. The result is the returned
      value, the storage afterwards, and the calls of \<open>localStorage\<close> in the order they were
      made.\<close>
  "readMessageOptionsFromLocalStorage DEFAULT_OPTIONS connection_id st =
     (case connection_id of
        None \<Rightarrow> (Options DEFAULT_OPTIONS, st, [])
      | Some cid \<Rightarrow>
          (let hasMigrated = message_options_migration_v1 st
           in if \<not> truthy hasMigrated then
                (let allMessageOptions =
                       map force_secure_data (parse_message_options (message_options st));
                     st' = st\<lparr>message_options := Some allMessageOptions,
                              message_options_migration_v1 := Some ''true''\<rparr>;
                     log = [GetItem MIGRATION_KEY_V1, GetItem ''message_options'',
                            SetItem ''message_options'', SetItem MIGRATION_KEY_V1]
                 in if has_property allMessageOptions cid
                    then (get_property allMessageOptions cid, st', log)
                    else (plain_read DEFAULT_OPTIONS cid st', st',
                          log @ [GetItem ''message_options'']))
              else (plain_read DEFAULT_OPTIONS cid st, st,
                    [GetItem MIGRATION_KEY_V1, GetItem ''message_options''])))"


section \<open>Rendering a finalized message (parseMessageContent)\<close>

text \<open>
  What \<open>parseMessageContent\<close> pushes onto \<open>parts\<close>: a plain string, a \<open>span\<close> element (the chip
  of a glossary term, from angle brackets) or a \<open>strong\<close> element (the chip of a unique key,
  from square brackets), each chip with the text it shows.
\<close>

datatype part = Text string | Span string | Strong string

definition attempt_angle :: "string \<Rightarrow> (string option \<times> string option \<times> nat) option" where
  \<comment> \<open>one attempt of the alternative \<open><([^>]+)>\<close> at the head of \<open>s\<close>: groups 1 and 2 and the
      length of the match. The greedy class takes every character up to the next \<open>>\<close> or the
      end of the input; it must take one at least and a \<open>>\<close> must follow, and backtracking to
      fewer characters cannot help, since the character that follows is then no \<open>>\<close>.\<close>
  "attempt_angle s =
     (case s of
        [] \<Rightarrow> None
      | c # cs \<Rightarrow>
          if c = CHR ''<'' then
            (let body = takeWhile (\<lambda>x. x \<noteq> CHR ''>'') cs
             in if body \<noteq> [] \<and> length body < length cs
                then Some (Some body, None, length body + 2) else None)
          else None)"

definition attempt_square :: "string \<Rightarrow> (string option \<times> string option \<times> nat) option" where
  \<comment> \<open>the same for the alternative \<open>\[([^\]]+)\]\<close>\<close>
  "attempt_square s =
     (case s of
        [] \<Rightarrow> None
      | c # cs \<Rightarrow>
          if c = CHR ''['' then
            (let body = takeWhile (\<lambda>x. x \<noteq> CHR '']'') cs
             in if body \<noteq> [] \<and> length body < length cs
                then Some (None, Some body, length body + 2) else None)
          else None)"

definition attempt_tag :: "string \<Rightarrow> (string option \<times> string option \<times> nat) option" where
  \<comment> \<open>the alternatives are tried in order\<close>
  "attempt_tag s = (case attempt_angle s of Some r \<Rightarrow> Some r | None \<Rightarrow> attempt_square s)"

function regex_exec ::
  "string \<Rightarrow> nat \<Rightarrow> (nat \<times> string option \<times> string option \<times> nat) option" where
  \<comment> \<open>\<open>regex.exec(text)\<close> of the global expression with \<open>regex.lastIndex = i\<close>: the positions
      from \<open>i\<close> on are tried in turn; the result is \<open>match.index\<close>, the two groups and the new
      \<open>regex.lastIndex\<close>, or \<open>None\<close> for \<open>null\<close>\<close>
  "regex_exec text i =
     (if length text < i then None
      else case attempt_tag (drop i text) of
             Some (g1, g2, n) \<Rightarrow> Some (i, g1, g2, i + n)
           | None \<Rightarrow> regex_exec text (i + 1))"
  by pat_completeness auto
termination
  by (relation "measure (\<lambda>(text, i). length text + 1 - i)") auto

declare regex_exec.simps [simp del]

function parse_loop :: "string \<Rightarrow> nat \<Rightarrow> part list \<Rightarrow> part list" where
  \<comment> \<open>the \<open>while\<close> loop of \<open>parseMessageContent\<close> and the lines after it, from the values of
      \<open>lastIndex\<close> (which is also \<open>regex.lastIndex\<close> at the head of the loop) and \<open>parts\<close>\<close>
  "parse_loop text lastIndex parts =
     (case regex_exec text lastIndex of
        None \<Rightarrow>
          (let after = drop lastIndex text
           in if after \<noteq> [] then parts @ [Text after] else parts)
      | Some (index, g1, g2, lastIndex') \<Rightarrow>
          (let before = take (index - lastIndex) (drop lastIndex text);
               parts1 = (if before \<noteq> [] then parts @ [Text before] else parts);
               parts2 = (if truthy g1 then parts1 @ [Span (to_string g1)]
                         else if truthy g2 then parts1 @ [Strong (to_string g2)]
                         else parts1)
           in parse_loop text lastIndex' parts2))"
  by pat_completeness auto
termination
proof -
  have attempt: "0 < n" if "attempt_tag s = Some (g1, g2, n)" for s g1 g2 n
    using that
    by (auto simp: attempt_tag_def attempt_angle_def attempt_square_def Let_def
             split: option.splits list.splits if_splits)
  have exec: "i < k \<and> i \<le> length t"
    if "regex_exec t i = Some (idx, g1, g2, k)" for t i idx g1 g2 k
    using that
  proof (induction t i rule: regex_exec.induct)
    case (1 t i)
    show ?case
    proof (cases "attempt_tag (drop i t)")
      case None
      with "1.prems" have le: "\<not> length t < i"
        and rec: "regex_exec t (i + 1) = Some (idx, g1, g2, k)"
        by (simp_all add: regex_exec.simps [of t i] split: if_splits)
      from "1.IH" [OF le None rec] le show ?thesis by simp
    next
      case (Some r)
      obtain a b n where r: "r = (a, b, n)" by (cases r)
      with Some "1.prems" attempt [of "drop i t" a b n] show ?thesis
        by (simp add: regex_exec.simps [of t i] split: if_splits)
    qed
  qed
  show ?thesis
    by (relation "measure (\<lambda>(text, lastIndex, parts). length text + 1 - lastIndex)")
       (auto dest: exec)
qed

declare parse_loop.simps [simp del]

definition emitted :: "string \<Rightarrow> nat \<Rightarrow> nat \<Rightarrow> string option \<Rightarrow> string option \<Rightarrow> part list" where
  \<comment> \<open>what one iteration of the loop pushes: the plain run before the match, when it is
      not empty, and the chip of the group that matched\<close>
  "emitted t li idx g1 g2 =
     (if take (idx - li) (drop li t) \<noteq> [] then [Text (take (idx - li) (drop li t))] else []) @
     (if truthy g1 then [Span (to_string g1)]
      else if truthy g2 then [Strong (to_string g2)] else [])"

definition parseMessageContent :: "string \<Rightarrow> part list" where
  "parseMessageContent text = parse_loop text 0 []"

fun part_source :: "part \<Rightarrow> string" where
  \<comment> \<open>the stretch of the message a segment stands for\<close>
  "part_source (Text s) = s"
| "part_source (Span c) = ''<'' @ c @ ''>''"
| "part_source (Strong c) = ''['' @ c @ '']''"

fun only_empty_or_unmatched :: "string \<Rightarrow> bool" where
  \<comment> \<open>every opening bracket is empty (its closing bracket comes next) or unmatched (no
      closing bracket of its kind comes after it)\<close>
  "only_empty_or_unmatched [] = True"
| "only_empty_or_unmatched (c # cs) =
     ((c = CHR ''<'' \<longrightarrow> (cs \<noteq> [] \<and> hd cs = CHR ''>'') \<or> CHR ''>'' \<notin> set cs) \<and>
      (c = CHR ''['' \<longrightarrow> (cs \<noteq> [] \<and> hd cs = CHR '']'') \<or> CHR '']'' \<notin> set cs) \<and>
      only_empty_or_unmatched cs)"

fun part_ok :: "part \<Rightarrow> bool" where
  \<comment> \<open>a plain run is not empty; the content of a chip is not empty and has no closing
      bracket of the chip's kind\<close>
  "part_ok (Text s) = (s \<noteq> [])"
| "part_ok (Span c) = (c \<noteq> [] \<and> CHR ''>'' \<notin> set c)"
| "part_ok (Strong c) = (c \<noteq> [] \<and> CHR '']'' \<notin> set c)"


text \<open>A dictionary and a component configuration used in the examples below.\<close>

definition example_props :: props where
  "example_props = \<lparr>disabled = False,
     autoCompleteList = Some [(''customer_id'', [''uniqueKey'']), (''revenue'', [''glossary'']),
                              (''Focus'', []), (''order_id'', [''uniqueKey''])],
     ref_current = True\<rparr>"


definition show_cus :: composer where
  \<comment> \<open>the state after typing \<open>show cus\<close> into the empty composer\<close>
  "show_cus = handleChange example_props
     \<lparr>target_value = ''show cus'', target_selectionStart = 8, target_selectionEnd = 8\<rparr> initial"


definition numeric_dict :: dict where
  \<comment> \<open>a dictionary whose first two keys, in insertion order, are array indices\<close>
  "numeric_dict = [(''2021'', []), (''1202'', []), (''x2021'', [])]"

definition toggled_storage :: storage where
  \<comment> \<open>a migrated storage in which the flag of \<open>conn1\<close> has been switched on since\<close>
  "toggled_storage = \<lparr>message_options = Some [(''conn1'', Some \<lparr>secure_data = True, debug = False\<rparr>)],
     message_options_migration_v1 = Some ''true''\<rparr>"

definition conn1_migrated :: storage where
  \<comment> \<open>the storage after the first read of \<open>conn1_storage\<close>\<close>
  "conn1_migrated = \<lparr>message_options = Some [(''conn1'', Some \<lparr>secure_data = False, debug = False\<rparr>)],
       message_options_migration_v1 = Some ''true''\<rparr>"

definition example_defaults :: IMessageOptions where
  \<comment> \<open>a value for the default record in the examples\<close>
  "example_defaults = \<lparr>secure_data = True, debug = False\<rparr>"

definition conn1_storage :: storage where
  \<comment> \<open>one stored record with the flag set, and no migration marker\<close>
  "conn1_storage = \<lparr>message_options = Some [(''conn1'', Some \<lparr>secure_data = True, debug = False\<rparr>)],
     message_options_migration_v1 = None\<rparr>"


section \<open>Properties of the composer\<close>

subsection \<open>The in-progress word\<close>

lemma attempt_word_run_eq:
  "attempt_word_run s = (if list_all is_word_char s \<and> 3 \<le> length s then Some s else None)"
proof (cases "list_all is_word_char s")
  case True
  then have tw: "takeWhile is_word_char s = s" and dw: "dropWhile is_word_char s = []"
    by (simp_all add: list_all_iff)
  show ?thesis unfolding attempt_word_run_def Let_def tw dw using True by simp
next
  case False
  then have "dropWhile is_word_char s \<noteq> []"
    by (simp add: list_all_iff)
  with False show ?thesis by (simp add: attempt_word_run_def Let_def)
qed

lemma takeWhile_snoc:
  "takeWhile P (xs @ [c]) = (if (\<forall>x\<in>set xs. P x) \<and> P c then xs @ [c] else takeWhile P xs)"
  by (induction xs) auto

lemma trailing_word_run_Cons:
  "trailing_word_run (c # cs) =
     (if list_all is_word_char cs \<and> is_word_char c then c # cs else trailing_word_run cs)"
  by (simp add: trailing_word_run_def list_all_iff takeWhile_snoc)

lemma trailing_word_run_all: "list_all is_word_char s \<Longrightarrow> trailing_word_run s = s"
proof -
  assume "list_all is_word_char s"
  then have tw: "takeWhile is_word_char (rev s) = rev s"
    by (simp add: list_all_iff)
  show ?thesis unfolding trailing_word_run_def tw by simp
qed

lemma match_word_run_eq:
  "match_word_run s =
     (if 3 \<le> length (trailing_word_run s) then Some (trailing_word_run s) else None)"
proof (induction s)
  case Nil
  show ?case by (simp add: attempt_word_run_eq trailing_word_run_def)
next
  case (Cons c cs)
  show ?case
  proof (cases "list_all is_word_char cs \<and> is_word_char c")
    case True
    then show ?thesis
      using Cons by (auto simp: attempt_word_run_eq trailing_word_run_Cons trailing_word_run_all)
  next
    case False
    then show ?thesis
      using Cons by (auto simp: attempt_word_run_eq trailing_word_run_Cons)
  qed
qed

lemma trailing_word_run_maximal:
  "\<exists>pre. s = pre @ trailing_word_run s \<and> (pre = [] \<or> \<not> is_word_char (last pre))"
proof -
  let ?r = "rev s"
  have "rev s = takeWhile is_word_char ?r @ dropWhile is_word_char ?r" by simp
  then have "s = rev (dropWhile is_word_char ?r) @ trailing_word_run s"
    unfolding trailing_word_run_def by (metis rev_append rev_rev_ident)
  moreover have "rev (dropWhile is_word_char ?r) = [] \<or> \<not> is_word_char (last (rev (dropWhile is_word_char ?r)))"
    using hd_dropWhile [of is_word_char ?r] by (auto simp: last_rev)
  ultimately show ?thesis by blast
qed

lemma trailing_word_run_word: "list_all is_word_char (trailing_word_run s)"
  by (auto simp: trailing_word_run_def list_all_iff dest: set_takeWhileD)

lemma includes_str_iff: "includes_str s q \<longleftrightarrow> (\<exists>ps ss. s = ps @ q @ ss)"
proof (induction s)
  case Nil
  show ?case by auto
next
  case (Cons c cs)
  show ?case
  proof
    assume "includes_str (c # cs) q"
    then consider "prefix q (c # cs)" | "includes_str cs q" by auto
    then show "\<exists>ps ss. c # cs = ps @ q @ ss"
    proof cases
      case 1
      then obtain ss where "c # cs = q @ ss" by (auto simp: prefix_def)
      then have "c # cs = [] @ q @ ss" by simp
      then show ?thesis by blast
    next
      case 2
      with Cons obtain ps ss where "cs = ps @ q @ ss" by blast
      then have "c # cs = (c # ps) @ q @ ss" by simp
      then show ?thesis by blast
    qed
  next
    assume "\<exists>ps ss. c # cs = ps @ q @ ss"
    then obtain ps ss where *: "c # cs = ps @ q @ ss" by blast
    show "includes_str (c # cs) q"
    proof (cases ps)
      case Nil
      with * have "prefix q (c # cs)" by (simp add: prefix_def)
      then show ?thesis by simp
    next
      case (Cons a ps')
      with * have "cs = ps' @ q @ ss" by simp
      with Cons.IH show ?thesis by auto
    qed
  qed
qed

text \<open>
  Claim C6. After a text change, the text before the cursor splits into a prefix and its
  trailing run of word characters, which is maximal: either the prefix is empty or it ends in a
  character that is no word character. The match of the trigger expression on the text before
  the cursor is exactly that run when it has at least 3 characters, and there is no match
  otherwise. In the first case the run (in lower case) is the query the candidates are
  filtered by; in the second the suggestion list is hidden.
\<close>

theorem in_progress_query:
  "let before = take (target_selectionStart e) (target_value e);
       run = trailing_word_run before
   in (\<exists>pre. before = pre @ run \<and> (pre = [] \<or> \<not> is_word_char (last pre))) \<and>
      list_all is_word_char run \<and>
      match_word_run before = (if 3 \<le> length run then Some run else None) \<and>
      (3 \<le> length run \<longrightarrow>
         filteredSuggestions (handleChange p e s) =
           filter (\<lambda>k. includes_str (toLowerCase k) (toLowerCase run)) (suggestions p)) \<and>
      (length run < 3 \<longrightarrow> \<not> showSuggestions (handleChange p e s))"
  using trailing_word_run_maximal [of "take (target_selectionStart e) (target_value e)"]
  by (simp add: Let_def trailing_word_run_word match_word_run_eq handleChange_def)

theorem in_progress_query_witness:
  "match_word_run (take 8 ''show cus'') = Some ''cus'' \<and>
   filteredSuggestions (handleChange example_props
      \<lparr>target_value = ''show cus'', target_selectionStart = 8, target_selectionEnd = 8\<rparr> initial)
     = [''customer_id'', ''Focus''] \<and>
   match_word_run (take 7 ''show cus'') = None \<and>
   \<not> showSuggestions (handleChange example_props
      \<lparr>target_value = ''show cus'', target_selectionStart = 7, target_selectionEnd = 7\<rparr> initial)"
proof -
  have r8: "trailing_word_run ''show cus'' = ''cus''"
    and r7: "trailing_word_run ''show cu'' = ''cu''"
    by code_simp+
  have f: "filter (\<lambda>k. includes_str (toLowerCase k) (toLowerCase ''cus'')) (suggestions example_props)
        = [''customer_id'', ''Focus'']"
    by code_simp
  show ?thesis
    using in_progress_query [of "\<lparr>target_value = ''show cus'', target_selectionStart = 8,
             target_selectionEnd = 8\<rparr>" example_props initial]
          in_progress_query [of "\<lparr>target_value = ''show cus'', target_selectionStart = 7,
             target_selectionEnd = 7\<rparr>" example_props initial]
    by (simp add: Let_def r8 r7 f del: match_word_run.simps)
qed

subsection \<open>Filtering\<close>

text \<open>
  Claim C5, as stated, has the candidates in insertion order. The keys come from
  \<open>Object.keys\<close>, which lists array-index keys first, in ascending numeric order: for a
  dictionary created with the keys \<open>2021\<close>, \<open>1202\<close>, \<open>x2021\<close> in this order and the typed
  word \<open>202\<close>, all three keys match, and the candidate list is \<open>1202\<close>, \<open>2021\<close>, \<open>x2021\<close>, where
  insertion order would give \<open>2021\<close>, \<open>1202\<close>, \<open>x2021\<close>.
\<close>

theorem keys_not_in_insertion_order:
  "filteredSuggestions (handleChange
      \<lparr>disabled = False, autoCompleteList = Some numeric_dict, ref_current = True\<rparr>
      \<lparr>target_value = ''202'', target_selectionStart = 3, target_selectionEnd = 3\<rparr> initial)
     = [''1202'', ''2021'', ''x2021''] \<and>
   map fst numeric_dict = [''2021'', ''1202'', ''x2021''] \<and>
   includes_str (toLowerCase ''2021'') (toLowerCase ''202'') \<and>
   includes_str (toLowerCase ''1202'') (toLowerCase ''202'') \<and>
   includes_str (toLowerCase ''x2021'') (toLowerCase ''202'')"
  by (simp add: handleChange_def Let_def attempt_word_run_def is_word_char_def suggestions_def
      Object_keys_def is_array_index_def is_digit_def digits_value_def toLowerCase_def
      toLowerCase_char_def numeric_dict_def initial_def)

lemma Object_keys_no_index:
  assumes "\<forall>k\<in>set (map fst d). \<not> is_array_index k"
  shows "Object_keys d = map fst d"
proof -
  from assms have "filter is_array_index (map fst d) = []"
    and "filter (\<lambda>k. \<not> is_array_index k) (map fst d) = map fst d"
    by (simp_all add: filter_empty_conv filter_id_conv)
  then show ?thesis by (simp add: Object_keys_def)
qed

text \<open>
  Claim C5, amended. When the text change leaves an in-progress word \<open>q\<close>, the filtered
  candidate list is the list of the keys of the dictionary in the order \<open>Object.keys\<close>
  enumerates them (the keys that are array indices first, in ascending numeric order, then
  the other keys in insertion order; no key at all for an absent dictionary), restricted to
  the keys whose lower-case form contains the lower-case form of \<open>q\<close> as a contiguous
  substring, wherever it starts. For a dictionary without array-index keys this is the
  insertion order of the matching keys. The suggestion list is shown exactly when the
  candidate list is not empty, and then the highlighted index is 0.
\<close>

theorem filtered_candidates:
  assumes "match_word_run (take (target_selectionStart e) (target_value e)) = Some q"
  shows "filteredSuggestions (handleChange p e s) =
           filter (\<lambda>k. \<exists>ps ss. toLowerCase k = ps @ toLowerCase q @ ss)
             (case autoCompleteList p of
                None \<Rightarrow> []
              | Some D \<Rightarrow>
                  sort_key digits_value (filter is_array_index (map fst D)) @
                  filter (\<lambda>k. \<not> is_array_index k) (map fst D)) \<and>
         (\<forall>D. autoCompleteList p = Some D \<and> (\<forall>k\<in>set (map fst D). \<not> is_array_index k) \<longrightarrow>
            filteredSuggestions (handleChange p e s) =
              filter (\<lambda>k. \<exists>ps ss. toLowerCase k = ps @ toLowerCase q @ ss) (map fst D)) \<and>
         showSuggestions (handleChange p e s) = (filteredSuggestions (handleChange p e s) \<noteq> []) \<and>
         suggestions_visible (handleChange p e s) = (filteredSuggestions (handleChange p e s) \<noteq> []) \<and>
         (filteredSuggestions (handleChange p e s) \<noteq> [] \<longrightarrow> selectedIndex (handleChange p e s) = 0)"
proof -
  have f: "filteredSuggestions (handleChange p e s) =
      filter (\<lambda>k. \<exists>ps ss. toLowerCase k = ps @ toLowerCase q @ ss) (suggestions p)"
    using assms by (simp add: handleChange_def includes_str_iff Let_def)
  have 1: "suggestions p = (case autoCompleteList p of
                None \<Rightarrow> []
              | Some D \<Rightarrow>
                  sort_key digits_value (filter is_array_index (map fst D)) @
                  filter (\<lambda>k. \<not> is_array_index k) (map fst D))"
    by (simp add: suggestions_def Object_keys_def Let_def split: option.splits)
  have 2: "suggestions p = map fst D"
    if "autoCompleteList p = Some D" "\<forall>k\<in>set (map fst D). \<not> is_array_index k" for D
    using that Object_keys_no_index [of D] by (simp add: suggestions_def)
  have 3: "showSuggestions (handleChange p e s) = (filteredSuggestions (handleChange p e s) \<noteq> [])"
    "suggestions_visible (handleChange p e s) = (filteredSuggestions (handleChange p e s) \<noteq> [])"
    "selectedIndex (handleChange p e s) = 0"
    using assms by (simp_all add: handleChange_def suggestions_visible_def Let_def)
  show ?thesis
    unfolding f using 1 2 3 [unfolded f] by (auto simp del: set_map)
qed

theorem filtered_candidates_witness:
  "match_word_run (take 3 ''202'') = Some ''202'' \<and>
   filteredSuggestions (handleChange
      \<lparr>disabled = False, autoCompleteList = Some numeric_dict, ref_current = True\<rparr>
      \<lparr>target_value = ''202'', target_selectionStart = 3, target_selectionEnd = 3\<rparr> initial)
     = [''1202'', ''2021'', ''x2021''] \<and>
   showSuggestions (handleChange
      \<lparr>disabled = False, autoCompleteList = Some numeric_dict, ref_current = True\<rparr>
      \<lparr>target_value = ''202'', target_selectionStart = 3, target_selectionEnd = 3\<rparr> initial) \<and>
   selectedIndex (handleChange
      \<lparr>disabled = False, autoCompleteList = Some numeric_dict, ref_current = True\<rparr>
      \<lparr>target_value = ''202'', target_selectionStart = 3, target_selectionEnd = 3\<rparr> initial) = 0"
proof -
  let ?p = "\<lparr>disabled = False, autoCompleteList = Some numeric_dict, ref_current = True\<rparr>"
  let ?e = "\<lparr>target_value = ''202'', target_selectionStart = 3, target_selectionEnd = 3\<rparr>"
  have h: "match_word_run (take (target_selectionStart ?e) (target_value ?e)) = Some ''202''"
    by (simp add: attempt_word_run_def is_word_char_def)
  have k: "sort_key digits_value (filter is_array_index (map fst numeric_dict)) @
           filter (\<lambda>k. \<not> is_array_index k) (map fst numeric_dict) = [''1202'', ''2021'', ''x2021'']"
    by (simp add: numeric_dict_def is_array_index_def is_digit_def digits_value_def)
  have f: "filteredSuggestions (handleChange ?p ?e initial) = [''1202'', ''2021'', ''x2021'']"
    by (simp add: handleChange_def Let_def attempt_word_run_def is_word_char_def suggestions_def
      Object_keys_def is_array_index_def is_digit_def digits_value_def toLowerCase_def
      toLowerCase_char_def numeric_dict_def initial_def)
  from filtered_candidates [OF h, of ?p initial]
  have "filteredSuggestions (handleChange ?p ?e initial) =
          filter (\<lambda>k. \<exists>ps ss. toLowerCase k = ps @ toLowerCase ''202'' @ ss)
            [''1202'', ''2021'', ''x2021'']"
    and "showSuggestions (handleChange ?p ?e initial) = (filteredSuggestions (handleChange ?p ?e initial) \<noteq> [])"
    and "filteredSuggestions (handleChange ?p ?e initial) \<noteq> [] \<longrightarrow> selectedIndex (handleChange ?p ?e initial) = 0"
    unfolding k [symmetric] by simp_all
  with h f show ?thesis by simp
qed

subsection \<open>The keyboard contract\<close>

lemma handleKeyPress_cases:
  "handleKeyPress p e s =
     (if suggestions_visible s \<and> key e = ''ArrowDown'' then
        \<lparr>state = s\<lparr>selectedIndex :=
             (if selectedIndex s < int (length (filteredSuggestions s)) - 1
              then selectedIndex s + 1 else selectedIndex s)\<rparr>,
         defaultPrevented = True, submitted = None, thrown = None\<rparr>
      else if suggestions_visible s \<and> key e = ''ArrowUp'' then
        \<lparr>state = s\<lparr>selectedIndex :=
             (if selectedIndex s > 0 then selectedIndex s - 1 else selectedIndex s)\<rparr>,
         defaultPrevented = True, submitted = None, thrown = None\<rparr>
      else if suggestions_visible s \<and> key e = ''Tab'' then
        (let (s', err) = insertSuggestionAtCaret p
                           (nth_or_undefined (filteredSuggestions s) (selectedIndex s)) s
         in \<lparr>state = s', defaultPrevented = True, submitted = None, thrown = err\<rparr>)
      else if suggestions_visible s \<and> key e = ''Escape'' then
        \<lparr>state = s\<lparr>showSuggestions := False\<rparr>,
         defaultPrevented = True, submitted = None, thrown = None\<rparr>
      else if key e = ''Enter'' \<and> \<not> shiftKey e then
        (let (s', sub) = handleSubmit p s
         in \<lparr>state = s', defaultPrevented = True, submitted = sub, thrown = None\<rparr>)
      else \<lparr>state = s, defaultPrevented = False, submitted = None, thrown = None\<rparr>)"
  by (simp add: handleKeyPress_def Let_def)

lemma show_cus_eq:
  "show_cus = \<lparr>inputValue = ''show cus'', filteredSuggestions = [''customer_id'', ''Focus''],
      showSuggestions = True, selectedIndex = 0, selectionStart = 8, selectionEnd = 8\<rparr>"
  by code_simp

text \<open>
  Claim C8. With the suggestion list shown, pressing Escape changes nothing in the state but
  the visibility flag: the list is hidden, the input text and both ends of the selection (the
  cursor position) are as before, nothing is submitted, and the browser's own handling of the
  key is suppressed.
\<close>

theorem escape_hides:
  assumes "suggestions_visible s" and "key e = ''Escape''"
  shows "handleKeyPress p e s =
           \<lparr>state = s\<lparr>showSuggestions := False\<rparr>, defaultPrevented = True,
            submitted = None, thrown = None\<rparr> \<and>
         \<not> suggestions_visible (state (handleKeyPress p e s)) \<and>
         inputValue (state (handleKeyPress p e s)) = inputValue s \<and>
         selectionStart (state (handleKeyPress p e s)) = selectionStart s \<and>
         selectionEnd (state (handleKeyPress p e s)) = selectionEnd s"
  using assms by (simp add: handleKeyPress_cases suggestions_visible_def)

theorem escape_hides_witness:
  "suggestions_visible show_cus \<and>
   state (handleKeyPress example_props \<lparr>key = ''Escape'', shiftKey = False\<rparr> show_cus) =
     \<lparr>inputValue = ''show cus'', filteredSuggestions = [''customer_id'', ''Focus''],
      showSuggestions = False, selectedIndex = 0, selectionStart = 8, selectionEnd = 8\<rparr>"
proof -
  have v: "suggestions_visible show_cus"
    by (simp add: show_cus_eq suggestions_visible_def)
  have k: "key \<lparr>key = ''Escape'', shiftKey = False\<rparr> = ''Escape''" by simp
  show ?thesis
    using v escape_hides [OF v k, of example_props] by (simp add: show_cus_eq)
qed

text \<open>
  Claim C1, as stated, says that Enter does not submit while suggestions are shown. The handler
  has no such guard: Enter is none of the four keys of the suggestion contract, so it reaches
  the submit branch. After typing \<open>show cus\<close> the list is shown, and Enter without shift
  submits \<open>show cus\<close>.
\<close>

theorem enter_submits_while_shown:
  "suggestions_visible show_cus \<and>
   submitted (handleKeyPress example_props \<lparr>key = ''Enter'', shiftKey = False\<rparr> show_cus)
     = Some ''show cus''"
  by (simp add: show_cus_eq suggestions_visible_def handleKeyPress_cases handleSubmit_def
      example_props_def)

text \<open>
  Claim C1, amended. While the suggestion list is shown, ArrowDown, ArrowUp, Tab and Escape are
  consumed by the suggestion contract (the default is prevented and nothing is submitted).
  Enter without a shift modifier runs the submit handler whether or not suggestions are shown:
  the message is submitted unless the composer is disabled or the input is empty. Every other
  key event falls through to normal input handling: the default is not prevented, the state
  is unchanged and nothing is submitted.
\<close>

theorem keyboard_contract:
  "(suggestions_visible s \<and> key e \<in> {''ArrowDown'', ''ArrowUp'', ''Tab'', ''Escape''} \<longrightarrow>
      defaultPrevented (handleKeyPress p e s) \<and> submitted (handleKeyPress p e s) = None) \<and>
   (key e = ''Enter'' \<and> \<not> shiftKey e \<longrightarrow>
      defaultPrevented (handleKeyPress p e s) \<and>
      submitted (handleKeyPress p e s) =
        (if disabled p \<or> inputValue s = [] then None else Some (inputValue s))) \<and>
   (\<not> (suggestions_visible s \<and> key e \<in> {''ArrowDown'', ''ArrowUp'', ''Tab'', ''Escape''}) \<and>
    \<not> (key e = ''Enter'' \<and> \<not> shiftKey e) \<longrightarrow>
      handleKeyPress p e s =
        \<lparr>state = s, defaultPrevented = False, submitted = None, thrown = None\<rparr>)"
  by (auto simp: handleKeyPress_cases handleSubmit_def split: prod.splits)


theorem keyboard_contract_witness:
  "suggestions_visible show_cus \<and>
   defaultPrevented (handleKeyPress example_props \<lparr>key = ''Tab'', shiftKey = False\<rparr> show_cus) \<and>
   submitted (handleKeyPress example_props \<lparr>key = ''Tab'', shiftKey = False\<rparr> show_cus) = None \<and>
   submitted (handleKeyPress example_props \<lparr>key = ''Enter'', shiftKey = False\<rparr> initial) = None \<and>
   submitted (handleKeyPress example_props \<lparr>key = ''Enter'', shiftKey = False\<rparr> show_cus)
     = Some ''show cus'' \<and>
   handleKeyPress example_props \<lparr>key = ''Enter'', shiftKey = True\<rparr> show_cus =
     \<lparr>state = show_cus, defaultPrevented = False, submitted = None, thrown = None\<rparr>"
proof -
  have v: "suggestions_visible show_cus"
    by (simp add: show_cus_eq suggestions_visible_def)
  have d: "\<not> disabled example_props" by (simp add: example_props_def)
  have i: "inputValue show_cus = ''show cus''" "inputValue initial = []"
    by (simp_all add: show_cus_eq initial_def)
  show ?thesis
    using v d i
      keyboard_contract [of show_cus "\<lparr>key = ''Tab'', shiftKey = False\<rparr>" example_props]
      keyboard_contract [of initial "\<lparr>key = ''Enter'', shiftKey = False\<rparr>" example_props]
      keyboard_contract [of show_cus "\<lparr>key = ''Enter'', shiftKey = False\<rparr>" example_props]
      keyboard_contract [of show_cus "\<lparr>key = ''Enter'', shiftKey = True\<rparr>" example_props]
    by simp
qed

subsection \<open>The highlighted index\<close>

lemma insertSuggestionAtCaret_frame:
  "filteredSuggestions (fst (insertSuggestionAtCaret p c s)) = filteredSuggestions s \<and>
   (fst (insertSuggestionAtCaret p c s) = s \<or> selectedIndex (fst (insertSuggestionAtCaret p c s)) = 0)"
  by (simp add: insertSuggestionAtCaret_def Let_def split: option.splits)

lemma index_in_range_zero:
  "selectedIndex s = 0 \<Longrightarrow> index_in_range s"
  by (cases "filteredSuggestions s") (simp_all add: index_in_range_def)

lemma index_in_range_insert:
  "index_in_range s \<Longrightarrow> index_in_range (fst (insertSuggestionAtCaret p c s))"
  using insertSuggestionAtCaret_frame [of p c s] index_in_range_zero
  by auto

lemma index_in_range_handleChange: "index_in_range (handleChange p e s)"
  by (rule index_in_range_zero) (simp add: handleChange_def Let_def split: option.splits)

lemma index_in_range_handleSubmit:
  "index_in_range s \<Longrightarrow> index_in_range (fst (handleSubmit p s))"
  by (simp add: handleSubmit_def index_in_range_def)

lemma index_in_range_handleKeyPress:
  assumes "index_in_range s"
  shows "index_in_range (state (handleKeyPress p e s))"
proof -
  have tab: "index_in_range (fst (insertSuggestionAtCaret p c s))" for c
    using assms by (rule index_in_range_insert)
  have sub: "index_in_range (fst (handleSubmit p s))"
    using assms by (rule index_in_range_handleSubmit)
  have arrows: "suggestions_visible s \<Longrightarrow>
      index_in_range (s\<lparr>selectedIndex :=
             (if selectedIndex s < int (length (filteredSuggestions s)) - 1
              then selectedIndex s + 1 else selectedIndex s)\<rparr>) \<and>
      index_in_range (s\<lparr>selectedIndex :=
             (if selectedIndex s > 0 then selectedIndex s - 1 else selectedIndex s)\<rparr>) \<and>
      index_in_range (s\<lparr>showSuggestions := False\<rparr>)"
    using assms by (auto simp: index_in_range_def suggestions_visible_def)
  show ?thesis
    using tab sub arrows assms
    by (simp add: handleKeyPress_cases case_prod_beta)
qed

lemma index_in_range_step:
  "index_in_range s \<Longrightarrow> index_in_range (step p x s)"
proof (cases x)
  case (Change e)
  then show ?thesis by (simp add: index_in_range_handleChange)
next
  case (KeyDown e)
  assume "index_in_range s"
  with KeyDown show ?thesis by (simp add: index_in_range_handleKeyPress)
next
  case (MouseEnter i)
  assume "index_in_range s"
  with MouseEnter show ?thesis by (auto simp: onMouseEnter_def index_in_range_def)
next
  case (Click i)
  assume "index_in_range s"
  with Click show ?thesis by (simp add: onClick_def index_in_range_insert)
next
  case SubmitClick
  assume "index_in_range s"
  with SubmitClick show ?thesis by (simp add: index_in_range_handleSubmit)
qed

lemma index_in_range_run:
  "index_in_range s \<Longrightarrow> index_in_range (run xs s)"
  by (induction xs arbitrary: s) (auto simp: index_in_range_step)

lemma index_in_range_initial: "index_in_range initial"
  by (simp add: index_in_range_def initial_def)

text \<open>
  Claim C7. Whenever the filtered candidate list is not empty, the highlighted index is within
  \<open>[0, length - 1]\<close>: this holds in every state reached from the initial one by text changes,
  key presses, hovering, clicks on a candidate and clicks on the send button, and every single
  operation preserves it. With the list shown, ArrowDown moves the index to the minimum of its
  successor and the last index (so it stays at the last index, with no wrap-around), and
  ArrowUp to the maximum of its predecessor and 0 (so it stays at 0).
\<close>

theorem highlighted_index_in_range:
  "index_in_range (run xs initial) \<and>
   (index_in_range s \<longrightarrow> index_in_range (step p x s)) \<and>
   (suggestions_visible s \<and> index_in_range s \<and> key e = ''ArrowDown'' \<longrightarrow>
      state (handleKeyPress p e s) =
        s\<lparr>selectedIndex := min (selectedIndex s + 1) (int (length (filteredSuggestions s)) - 1)\<rparr>) \<and>
   (suggestions_visible s \<and> index_in_range s \<and> key e = ''ArrowUp'' \<longrightarrow>
      state (handleKeyPress p e s) = s\<lparr>selectedIndex := max (selectedIndex s - 1) 0\<rparr>)"
proof -
  have down: "suggestions_visible s \<and> index_in_range s \<and> key e = ''ArrowDown'' \<longrightarrow>
      state (handleKeyPress p e s) =
        s\<lparr>selectedIndex := min (selectedIndex s + 1) (int (length (filteredSuggestions s)) - 1)\<rparr>"
    by (auto simp: handleKeyPress_cases index_in_range_def suggestions_visible_def min_def)
  have up: "suggestions_visible s \<and> index_in_range s \<and> key e = ''ArrowUp'' \<longrightarrow>
      state (handleKeyPress p e s) = s\<lparr>selectedIndex := max (selectedIndex s - 1) 0\<rparr>"
    by (auto simp: handleKeyPress_cases index_in_range_def suggestions_visible_def max_def)
  show ?thesis
    using down up index_in_range_run [OF index_in_range_initial, of xs] index_in_range_step [of s p x]
    by blast
qed


theorem highlighted_index_in_range_witness:
  "suggestions_visible show_cus \<and> index_in_range show_cus \<and>
   index_in_range (step example_props (KeyDown \<lparr>key = ''ArrowDown'', shiftKey = False\<rparr>) show_cus) \<and>
   selectedIndex (state (handleKeyPress example_props \<lparr>key = ''ArrowDown'', shiftKey = False\<rparr>
      show_cus)) = 1 \<and>
   selectedIndex (state (handleKeyPress example_props \<lparr>key = ''ArrowDown'', shiftKey = False\<rparr>
      (show_cus\<lparr>selectedIndex := 1\<rparr>))) = 1 \<and>
   selectedIndex (state (handleKeyPress example_props \<lparr>key = ''ArrowUp'', shiftKey = False\<rparr>
      (show_cus\<lparr>selectedIndex := 1\<rparr>))) = 0 \<and>
   selectedIndex (state (handleKeyPress example_props \<lparr>key = ''ArrowUp'', shiftKey = False\<rparr>
      show_cus)) = 0"
proof -
  have v: "suggestions_visible show_cus" "suggestions_visible (show_cus\<lparr>selectedIndex := 1\<rparr>)"
    by (simp_all add: show_cus_eq suggestions_visible_def)
  have r: "index_in_range show_cus" "index_in_range (show_cus\<lparr>selectedIndex := 1\<rparr>)"
    by (simp_all add: show_cus_eq index_in_range_def)
  have l: "length (filteredSuggestions show_cus) = 2" "selectedIndex show_cus = 0"
    by (simp_all add: show_cus_eq)
  show ?thesis
    using v r l
      highlighted_index_in_range [of "[]" show_cus example_props
        "KeyDown \<lparr>key = ''ArrowDown'', shiftKey = False\<rparr>" "\<lparr>key = ''ArrowDown'', shiftKey = False\<rparr>"]
      highlighted_index_in_range [of "[]" "show_cus\<lparr>selectedIndex := 1\<rparr>" example_props
        "KeyDown \<lparr>key = ''ArrowDown'', shiftKey = False\<rparr>" "\<lparr>key = ''ArrowDown'', shiftKey = False\<rparr>"]
      highlighted_index_in_range [of "[]" show_cus example_props
        "KeyDown \<lparr>key = ''ArrowUp'', shiftKey = False\<rparr>" "\<lparr>key = ''ArrowUp'', shiftKey = False\<rparr>"]
      highlighted_index_in_range [of "[]" "show_cus\<lparr>selectedIndex := 1\<rparr>" example_props
        "KeyDown \<lparr>key = ''ArrowUp'', shiftKey = False\<rparr>" "\<lparr>key = ''ArrowUp'', shiftKey = False\<rparr>"]
    by simp
qed

subsection \<open>Accepting a candidate\<close>

lemma match_word_run_suffix:
  assumes "match_word_run t = Some w"
  shows "\<exists>pre. t = pre @ w" and "3 \<le> length w" and "list_all is_word_char w"
proof -
  from assms have w: "w = trailing_word_run t" and "3 \<le> length (trailing_word_run t)"
    by (simp_all add: match_word_run_eq split: if_splits)
  then show "3 \<le> length w" by simp
  from w show "list_all is_word_char w" by (simp add: trailing_word_run_word)
  from w trailing_word_run_maximal [of t] show "\<exists>pre. t = pre @ w" by auto
qed

text \<open>
  Claim C3. Let the cursor of the textarea be preceded by an in-progress word \<open>w\<close> (at least
  3 word characters), so that the input is \<open>pre @ w @ post\<close> with the cursor right after \<open>w\<close>.
  Accepting a candidate \<open>c\<close> of the dictionary with tag set \<open>tags\<close> gives the input
  \<open>pre @ wrapped @ '' '' @ post\<close>, where \<open>wrapped\<close> is \<open>[c]\<close> if the tags contain \<open>uniqueKey\<close>,
  else \<open><c>\<close> if they contain \<open>glossary\<close>, else \<open>c\<close> itself; the cursor is right after the
  single space that follows the wrapped candidate, the list is hidden and the highlighted
  index is 0. Accepting \<open>customer_id\<close>, tagged \<open>uniqueKey\<close>, on \<open>show cus\<close> with the cursor at
  the end gives \<open>show [customer_id] \<close> with the cursor at the end.
\<close>

theorem accept_candidate:
  assumes ref: "ref_current p"
    and dict: "autoCompleteList p = Some D"
    and tags: "lookup D c = Some tags"
    and cursor: "selectionStart s = cursor" "selectionEnd s = cursor" "cursor \<le> length (inputValue s)"
    and word: "match_word_run (take cursor (inputValue s)) = Some w"
  shows "\<exists>pre post wrapped.
           inputValue s = pre @ w @ post \<and> length (pre @ w) = cursor \<and>
           wrapped = (if ''uniqueKey'' \<in> set tags then ''['' @ c @ '']''
                      else if ''glossary'' \<in> set tags then ''<'' @ c @ ''>''
                      else c) \<and>
           insertSuggestionAtCaret p (Some c) s =
             (s\<lparr>inputValue := pre @ wrapped @ '' '' @ post,
                showSuggestions := False, selectedIndex := 0,
                selectionStart := length (pre @ wrapped @ '' ''),
                selectionEnd := length (pre @ wrapped @ '' '')\<rparr>, None)"
proof -
  define post where "post = drop cursor (inputValue s)"
  define wrapped where "wrapped = (if ''uniqueKey'' \<in> set tags then ''['' @ c @ '']''
                      else if ''glossary'' \<in> set tags then ''<'' @ c @ ''>''
                      else c)"
  from match_word_run_suffix(1) [OF word] obtain pre where pre: "take cursor (inputValue s) = pre @ w"
    by blast
  have len: "length (pre @ w) = cursor"
    using pre cursor(3) by (metis length_take min.absorb2)
  have split: "inputValue s = pre @ w @ post"
    using pre post_def by (metis append_assoc append_take_drop_id)
  have rs: "cursor - length w = length pre" using len by simp
  have tk: "take (length pre) (inputValue s) = pre" using split by simp
  have "insertSuggestionAtCaret p (Some c) s =
             (s\<lparr>inputValue := pre @ wrapped @ '' '' @ post,
                showSuggestions := False, selectedIndex := 0,
                selectionStart := length (pre @ wrapped @ '' ''),
                selectionEnd := length (pre @ wrapped @ '' '')\<rparr>, None)"
    unfolding insertSuggestionAtCaret_def
    using ref dict tags cursor(1,2) word
    by (simp add: Let_def rs tk post_def [symmetric] wrapped_def)
  with split len wrapped_def show ?thesis by blast
qed


theorem accept_candidate_witness:
  "insertSuggestionAtCaret example_props (Some ''customer_id'') show_cus =
     (\<lparr>inputValue = ''show [customer_id] '', filteredSuggestions = [''customer_id'', ''Focus''],
       showSuggestions = False, selectedIndex = 0, selectionStart = 19, selectionEnd = 19\<rparr>, None)"
proof -
  have ref: "ref_current example_props"
    and dict: "autoCompleteList example_props =
        Some [(''customer_id'', [''uniqueKey'']), (''revenue'', [''glossary'']),
              (''Focus'', []), (''order_id'', [''uniqueKey''])]"
    by (simp_all add: example_props_def)
  have tags: "lookup [(''customer_id'', [''uniqueKey'']), (''revenue'', [''glossary'']),
              (''Focus'', []), (''order_id'', [''uniqueKey''])] ''customer_id'' = Some [''uniqueKey'']"
    by simp
  have cursor: "selectionStart show_cus = 8" "selectionEnd show_cus = 8"
      "8 \<le> length (inputValue show_cus)"
    by (simp_all add: show_cus_eq)
  have word: "match_word_run (take 8 (inputValue show_cus)) = Some ''cus''"
    unfolding show_cus_eq by code_simp
  from accept_candidate [OF ref dict tags cursor word]
  obtain pre post where split: "inputValue show_cus = pre @ ''cus'' @ post"
    and len: "length (pre @ ''cus'') = 8"
    and res: "insertSuggestionAtCaret example_props (Some ''customer_id'') show_cus =
             (show_cus\<lparr>inputValue := pre @ ''[customer_id]'' @ '' '' @ post,
                showSuggestions := False, selectedIndex := 0,
                selectionStart := length (pre @ ''[customer_id]'' @ '' ''),
                selectionEnd := length (pre @ ''[customer_id]'' @ '' '')\<rparr>, None)"
    by auto
  from len have "length pre = 5" by simp
  with split have "pre = take 5 ''show cus''" "post = drop 8 ''show cus''"
    by (simp_all add: show_cus_eq append_eq_conv_conj)
  then have "pre = ''show ''" "post = []" by simp_all
  with res show ?thesis by (simp add: show_cus_eq)
qed


section \<open>Properties of the stored message options\<close>

lemma property_force:
  "property (map force_secure_data m) k =
     map_option (map_option (\<lambda>v. v\<lparr>secure_data := False\<rparr>)) (property m k)"
proof (induction m)
  case Nil
  show ?case by simp
next
  case (Cons a m)
  obtain k' v where a: "a = (k', v)" by (cases a)
  show ?case using Cons by (cases v) (simp_all add: a)
qed

lemma read_migrated:
  assumes "truthy (message_options_migration_v1 st)"
  shows "readMessageOptionsFromLocalStorage D (Some cid) st =
           (case property (parse_message_options (message_options st)) cid of
              Some (Some v) \<Rightarrow> Options v
            | Some None \<Rightarrow> Null
            | None \<Rightarrow> if cid \<in> set object_prototype_names then Inherited cid else Options D,
            st, [GetItem MIGRATION_KEY_V1, GetItem ''message_options''])"
  using assms
  by (simp add: readMessageOptionsFromLocalStorage_def plain_read_def has_property_def
        get_property_def split: option.splits)

lemma read_unmigrated:
  assumes "\<not> truthy (message_options_migration_v1 st)"
  shows "readMessageOptionsFromLocalStorage D (Some cid) st =
           (case property (parse_message_options (message_options st)) cid of
              Some (Some v) \<Rightarrow> Options (v\<lparr>secure_data := False\<rparr>)
            | Some None \<Rightarrow> Null
            | None \<Rightarrow> if cid \<in> set object_prototype_names then Inherited cid else Options D,
            st\<lparr>message_options :=
                  Some (map force_secure_data (parse_message_options (message_options st))),
               message_options_migration_v1 := Some ''true''\<rparr>,
            [GetItem MIGRATION_KEY_V1, GetItem ''message_options'',
             SetItem ''message_options'', SetItem MIGRATION_KEY_V1] @
            (if property (parse_message_options (message_options st)) cid = None \<and>
                cid \<notin> set object_prototype_names
             then [GetItem ''message_options''] else []))"
  using assms
  by (auto simp: readMessageOptionsFromLocalStorage_def plain_read_def has_property_def
        get_property_def Let_def property_force split: option.splits)

text \<open>
  Claim C2. A read for a defined connection id is determined in both cases. On a storage
  without a (non-empty) migration marker, it writes back the stored map with \<open>secure_data\<close>
  forced to false in every entry (each key keeps its entry, which differs from the old one in
  that flag only; a \<open>null\<close> entry stays \<open>null\<close>), sets the marker, and returns the migrated
  entry of the requested connection; without an entry it returns the default record, or the
  inherited member when the id is a name of \<open>Object.prototype\<close>. A second read right after
  returns the same value, leaves the storage as it is and only calls \<open>getItem\<close>. On any
  storage with the marker present, whatever its flags are by then, the read returns the
  stored entry as it is stored (the default record or the inherited member without one),
  leaves the storage unchanged and makes the two \<open>getItem\<close> calls only: the pass that
  forces the flag does not run again.
\<close>

theorem migration_runs_once:
  "(\<not> truthy (message_options_migration_v1 st) \<longrightarrow>
      readMessageOptionsFromLocalStorage D (Some cid) st =
        (case property (parse_message_options (message_options st)) cid of
           Some (Some v) \<Rightarrow> Options (v\<lparr>secure_data := False\<rparr>)
         | Some None \<Rightarrow> Null
         | None \<Rightarrow> if cid \<in> set object_prototype_names then Inherited cid else Options D,
         st\<lparr>message_options :=
               Some (map force_secure_data (parse_message_options (message_options st))),
            message_options_migration_v1 := Some ''true''\<rparr>,
         [GetItem MIGRATION_KEY_V1, GetItem ''message_options'',
          SetItem ''message_options'', SetItem MIGRATION_KEY_V1] @
         (if property (parse_message_options (message_options st)) cid = None \<and>
             cid \<notin> set object_prototype_names
          then [GetItem ''message_options''] else [])) \<and>
      (\<forall>k. property (map force_secure_data (parse_message_options (message_options st))) k =
         (case property (parse_message_options (message_options st)) k of
            None \<Rightarrow> None
          | Some None \<Rightarrow> Some None
          | Some (Some v) \<Rightarrow> Some (Some (v\<lparr>secure_data := False\<rparr>)))) \<and>
      readMessageOptionsFromLocalStorage D (Some cid)
          (fst (snd (readMessageOptionsFromLocalStorage D (Some cid) st))) =
        (fst (readMessageOptionsFromLocalStorage D (Some cid) st),
         fst (snd (readMessageOptionsFromLocalStorage D (Some cid) st)),
         [GetItem MIGRATION_KEY_V1, GetItem ''message_options''])) \<and>
   (truthy (message_options_migration_v1 st) \<longrightarrow>
      readMessageOptionsFromLocalStorage D (Some cid) st =
        (case property (parse_message_options (message_options st)) cid of
           Some (Some v) \<Rightarrow> Options v
         | Some None \<Rightarrow> Null
         | None \<Rightarrow> if cid \<in> set object_prototype_names then Inherited cid else Options D,
         st, [GetItem MIGRATION_KEY_V1, GetItem ''message_options'']))"
proof (intro conjI impI)
  assume u: "\<not> truthy (message_options_migration_v1 st)"
  let ?m = "parse_message_options (message_options st)"
  let ?st1 = "st\<lparr>message_options := Some (map force_secure_data ?m),
                  message_options_migration_v1 := Some ''true''\<rparr>"
  show first: "readMessageOptionsFromLocalStorage D (Some cid) st =
        (case property ?m cid of
           Some (Some v) \<Rightarrow> Options (v\<lparr>secure_data := False\<rparr>)
         | Some None \<Rightarrow> Null
         | None \<Rightarrow> if cid \<in> set object_prototype_names then Inherited cid else Options D,
         ?st1,
         [GetItem MIGRATION_KEY_V1, GetItem ''message_options'',
          SetItem ''message_options'', SetItem MIGRATION_KEY_V1] @
         (if property ?m cid = None \<and> cid \<notin> set object_prototype_names
          then [GetItem ''message_options''] else []))"
    by (rule read_unmigrated [OF u])
  show "\<forall>k. property (map force_secure_data ?m) k =
         (case property ?m k of
            None \<Rightarrow> None
          | Some None \<Rightarrow> Some None
          | Some (Some v) \<Rightarrow> Some (Some (v\<lparr>secure_data := False\<rparr>)))"
    by (simp add: property_force split: option.splits)
  have t: "truthy (message_options_migration_v1 ?st1)" by simp
  show "readMessageOptionsFromLocalStorage D (Some cid)
          (fst (snd (readMessageOptionsFromLocalStorage D (Some cid) st))) =
        (fst (readMessageOptionsFromLocalStorage D (Some cid) st),
         fst (snd (readMessageOptionsFromLocalStorage D (Some cid) st)),
         [GetItem MIGRATION_KEY_V1, GetItem ''message_options''])"
    unfolding first using read_migrated [OF t, of D cid]
    by (simp add: property_force split: option.splits)
next
  assume "truthy (message_options_migration_v1 st)"
  then show "readMessageOptionsFromLocalStorage D (Some cid) st =
        (case property (parse_message_options (message_options st)) cid of
           Some (Some v) \<Rightarrow> Options v
         | Some None \<Rightarrow> Null
         | None \<Rightarrow> if cid \<in> set object_prototype_names then Inherited cid else Options D,
         st, [GetItem MIGRATION_KEY_V1, GetItem ''message_options''])"
    by (rule read_migrated)
qed

theorem migration_runs_once_witness:
  "readMessageOptionsFromLocalStorage example_defaults (Some ''conn1'') conn1_storage =
     (Options \<lparr>secure_data = False, debug = False\<rparr>, conn1_migrated,
      [GetItem MIGRATION_KEY_V1, GetItem ''message_options'',
       SetItem ''message_options'', SetItem MIGRATION_KEY_V1]) \<and>
   readMessageOptionsFromLocalStorage example_defaults (Some ''conn1'') conn1_migrated =
     (Options \<lparr>secure_data = False, debug = False\<rparr>, conn1_migrated,
      [GetItem MIGRATION_KEY_V1, GetItem ''message_options'']) \<and>
   readMessageOptionsFromLocalStorage example_defaults (Some ''conn1'') toggled_storage =
     (Options \<lparr>secure_data = True, debug = False\<rparr>, toggled_storage,
      [GetItem MIGRATION_KEY_V1, GetItem ''message_options'']) \<and>
   readMessageOptionsFromLocalStorage example_defaults (Some ''conn2'') toggled_storage =
     (Options example_defaults, toggled_storage,
      [GetItem MIGRATION_KEY_V1, GetItem ''message_options'']) \<and>
   readMessageOptionsFromLocalStorage example_defaults (Some ''toString'') toggled_storage =
     (Inherited ''toString'', toggled_storage,
      [GetItem MIGRATION_KEY_V1, GetItem ''message_options''])"
proof -
  have u: "\<not> truthy (message_options_migration_v1 conn1_storage)"
    by (simp add: conn1_storage_def)
  have t: "truthy (message_options_migration_v1 toggled_storage)"
    by (simp add: toggled_storage_def)
  have t': "truthy (message_options_migration_v1 conn1_migrated)"
    by (simp add: conn1_migrated_def)
  show ?thesis
    using u t t'
      migration_runs_once [of conn1_storage example_defaults "''conn1''"]
      migration_runs_once [of conn1_migrated example_defaults "''conn1''"]
      migration_runs_once [of toggled_storage example_defaults "''conn1''"]
      migration_runs_once [of toggled_storage example_defaults "''conn2''"]
      migration_runs_once [of toggled_storage example_defaults "''toString''"]
    by (simp add: conn1_storage_def toggled_storage_def conn1_migrated_def
          object_prototype_names_def)
qed

text \<open>
  Claim C9. With an undefined connection id the read returns the default record at once: the
  storage is unchanged and no call of \<open>localStorage\<close> is made, so the marker is neither read
  nor set and the migration does not run. It is deferred: a read with a defined connection id
  on a storage whose marker is absent (or empty) performs the migration and sets the marker.
\<close>

theorem undefined_connection_id:
  "readMessageOptionsFromLocalStorage D None st = (Options D, st, []) \<and>
   (\<not> truthy (message_options_migration_v1 st) \<longrightarrow>
      message_options_migration_v1 (fst (snd (readMessageOptionsFromLocalStorage D (Some cid) st)))
        = Some ''true'')"
  using read_unmigrated [of st D cid]
  by (auto simp: readMessageOptionsFromLocalStorage_def)

theorem undefined_connection_id_witness:
  "readMessageOptionsFromLocalStorage example_defaults None conn1_storage =
     (Options example_defaults, conn1_storage, []) \<and>
   message_options_migration_v1
     (fst (snd (readMessageOptionsFromLocalStorage example_defaults (Some ''conn2'')
        (fst (snd (readMessageOptionsFromLocalStorage example_defaults None conn1_storage))))))
     = Some ''true''"
proof -
  have h: "\<not> truthy (message_options_migration_v1 conn1_storage)"
    by (simp add: conn1_storage_def)
  from undefined_connection_id [of example_defaults conn1_storage "''conn2''"] h
  show ?thesis by simp
qed


section \<open>Properties of the message renderer\<close>

subsection \<open>One attempt and one search of the expression\<close>

lemma takeWhile_stop:
  assumes "length (takeWhile P xs) < length xs"
  shows "\<exists>y rest. xs = takeWhile P xs @ y # rest \<and> \<not> P y"
proof -
  have "dropWhile P xs \<noteq> []"
    using assms by (metis append_Nil2 nat_less_le takeWhile_dropWhile_id)
  then obtain y rest where d: "dropWhile P xs = y # rest" by (cases "dropWhile P xs") auto
  with hd_dropWhile [of P xs] have "\<not> P y" by simp
  moreover have "xs = takeWhile P xs @ y # rest"
    using d by (metis takeWhile_dropWhile_id)
  ultimately show ?thesis by blast
qed

lemma takeWhile_until:
  assumes "\<forall>x\<in>set c. P x" and "\<not> P y"
  shows "takeWhile P (c @ y # rest) = c"
  using assms by (simp add: takeWhile_append2)

lemma attempt_angle_Some:
  assumes "attempt_angle s = Some (g1, g2, n)"
  shows "\<exists>c rest. g1 = Some c \<and> g2 = None \<and> c \<noteq> [] \<and> CHR ''>'' \<notin> set c \<and>
           s = ''<'' @ c @ ''>'' @ rest \<and> n = length c + 2"
proof -
  from assms obtain cs where s: "s = CHR ''<'' # cs"
    and body: "takeWhile (\<lambda>x. x \<noteq> CHR ''>'') cs \<noteq> []"
      "length (takeWhile (\<lambda>x. x \<noteq> CHR ''>'') cs) < length cs"
    and g: "g1 = Some (takeWhile (\<lambda>x. x \<noteq> CHR ''>'') cs)" "g2 = None"
      "n = length (takeWhile (\<lambda>x. x \<noteq> CHR ''>'') cs) + 2"
    by (auto simp: attempt_angle_def Let_def split: list.splits if_splits)
  let ?c = "takeWhile (\<lambda>x. x \<noteq> CHR ''>'') cs"
  from takeWhile_stop [OF body(2)] obtain rest where cs: "cs = ?c @ CHR ''>'' # rest"
    by auto
  have "CHR ''>'' \<notin> set ?c" by (auto dest: set_takeWhileD)
  moreover from s cs have "s = ''<'' @ ?c @ ''>'' @ rest" by simp
  ultimately show ?thesis using body(1) g by blast
qed

lemma attempt_square_Some:
  assumes "attempt_square s = Some (g1, g2, n)"
  shows "\<exists>c rest. g1 = None \<and> g2 = Some c \<and> c \<noteq> [] \<and> CHR '']'' \<notin> set c \<and>
           s = ''['' @ c @ '']'' @ rest \<and> n = length c + 2"
proof -
  from assms obtain cs where s: "s = CHR ''['' # cs"
    and body: "takeWhile (\<lambda>x. x \<noteq> CHR '']'') cs \<noteq> []"
      "length (takeWhile (\<lambda>x. x \<noteq> CHR '']'') cs) < length cs"
    and g: "g2 = Some (takeWhile (\<lambda>x. x \<noteq> CHR '']'') cs)" "g1 = None"
      "n = length (takeWhile (\<lambda>x. x \<noteq> CHR '']'') cs) + 2"
    by (auto simp: attempt_square_def Let_def split: list.splits if_splits)
  let ?c = "takeWhile (\<lambda>x. x \<noteq> CHR '']'') cs"
  from takeWhile_stop [OF body(2)] obtain rest where cs: "cs = ?c @ CHR '']'' # rest"
    by auto
  have "CHR '']'' \<notin> set ?c" by (auto dest: set_takeWhileD)
  moreover from s cs have "s = ''['' @ ?c @ '']'' @ rest" by simp
  ultimately show ?thesis using body(1) g by blast
qed

lemma attempt_angle_match:
  assumes "c \<noteq> []" and "CHR ''>'' \<notin> set c"
  shows "attempt_angle (''<'' @ c @ ''>'' @ rest) = Some (Some c, None, length c + 2)"
proof -
  have "takeWhile (\<lambda>x. x \<noteq> CHR ''>'') (c @ CHR ''>'' # rest) = c"
    using assms(2) by (intro takeWhile_until) auto
  with assms(1) show ?thesis by (simp add: attempt_angle_def)
qed

lemma attempt_square_match:
  assumes "c \<noteq> []" and "CHR '']'' \<notin> set c"
  shows "attempt_square (''['' @ c @ '']'' @ rest) = Some (None, Some c, length c + 2)"
proof -
  have "takeWhile (\<lambda>x. x \<noteq> CHR '']'') (c @ CHR '']'' # rest) = c"
    using assms(2) by (intro takeWhile_until) auto
  with assms(1) show ?thesis by (simp add: attempt_square_def)
qed

lemma attempt_tag_angle:
  assumes "c \<noteq> []" and "CHR ''>'' \<notin> set c"
  shows "attempt_tag (''<'' @ c @ ''>'' @ rest) = Some (Some c, None, length c + 2)"
  unfolding attempt_tag_def attempt_angle_match [OF assms] by simp

lemma attempt_tag_square:
  assumes "c \<noteq> []" and "CHR '']'' \<notin> set c"
  shows "attempt_tag (''['' @ c @ '']'' @ rest) = Some (None, Some c, length c + 2)"
proof -
  have "attempt_angle (''['' @ c @ '']'' @ rest) = None"
    by (simp add: attempt_angle_def)
  then show ?thesis unfolding attempt_tag_def attempt_square_match [OF assms] by simp
qed

text \<open>What a successful attempt found: a chip and the stretch of text it stands for.\<close>

lemma attempt_tag_Some:
  assumes "attempt_tag s = Some (g1, g2, n)"
  shows "\<exists>c rest. c \<noteq> [] \<and> n = length c + 2 \<and>
           (g1 = Some c \<and> g2 = None \<and> CHR ''>'' \<notin> set c \<and> s = ''<'' @ c @ ''>'' @ rest \<or>
            g1 = None \<and> g2 = Some c \<and> CHR '']'' \<notin> set c \<and> s = ''['' @ c @ '']'' @ rest)"
proof (cases "attempt_angle s")
  case None
  with assms have "attempt_square s = Some (g1, g2, n)" by (simp add: attempt_tag_def)
  from attempt_square_Some [OF this] show ?thesis by blast
next
  case (Some r)
  with assms have "attempt_angle s = Some (g1, g2, n)" by (simp add: attempt_tag_def)
  from attempt_angle_Some [OF this] show ?thesis by blast
qed

lemma regex_exec_Some:
  assumes "regex_exec t i = Some (idx, g1, g2, k)"
  shows "i \<le> idx \<and> idx \<le> length t \<and> idx \<le> k \<and>
         attempt_tag (drop idx t) = Some (g1, g2, k - idx) \<and>
         (\<forall>j. i \<le> j \<and> j < idx \<longrightarrow> attempt_tag (drop j t) = None)"
  using assms
proof (induction t i rule: regex_exec.induct)
  case (1 t i)
  show ?case
  proof (cases "attempt_tag (drop i t)")
    case None
    with "1.prems" have le: "\<not> length t < i"
      and rec: "regex_exec t (i + 1) = Some (idx, g1, g2, k)"
      by (simp_all add: regex_exec.simps [of t i] split: if_splits)
    from "1.IH" [OF le None rec]
    have ih: "i + 1 \<le> idx" "idx \<le> length t" "idx \<le> k"
      "attempt_tag (drop idx t) = Some (g1, g2, k - idx)"
      "\<forall>j. i + 1 \<le> j \<and> j < idx \<longrightarrow> attempt_tag (drop j t) = None"
      by simp_all
    have "attempt_tag (drop j t) = None" if "i \<le> j" "j < idx" for j
    proof (cases "j = i")
      case True
      with None show ?thesis by simp
    next
      case False
      with that ih(5) show ?thesis by simp
    qed
    with ih show ?thesis by simp
  next
    case (Some r)
    obtain a b n where r: "r = (a, b, n)" by (cases r)
    with Some "1.prems" show ?thesis
      by (auto simp: regex_exec.simps [of t i] split: if_splits)
  qed
qed

lemma regex_exec_None:
  assumes "regex_exec t i = None" and "i \<le> j" and "j \<le> length t"
  shows "attempt_tag (drop j t) = None"
  using assms
proof (induction t i rule: regex_exec.induct)
  case (1 t i)
  from "1.prems" have le: "\<not> length t < i" by simp
  show ?case
  proof (cases "attempt_tag (drop i t)")
    case None
    with "1.prems"(1) le have rec: "regex_exec t (i + 1) = None"
      by (simp add: regex_exec.simps [of t i])
    show ?thesis
    proof (cases "j = i")
      case True
      with None show ?thesis by simp
    next
      case False
      with "1.prems" have "i + 1 \<le> j" by simp
      from "1.IH" [OF le None rec this "1.prems"(3)] show ?thesis .
    qed
  next
    case (Some r)
    obtain a b n where r: "r = (a, b, n)" by (cases r)
    with Some "1.prems"(1) le show ?thesis
      by (simp add: regex_exec.simps [of t i])
  qed
qed

lemma regex_exec_first:
  assumes "i \<le> idx" and "idx \<le> length t"
    and "attempt_tag (drop idx t) = Some (g1, g2, n)"
    and "\<forall>j. i \<le> j \<and> j < idx \<longrightarrow> attempt_tag (drop j t) = None"
  shows "regex_exec t i = Some (idx, g1, g2, idx + n)"
  using assms
proof (induction t i rule: regex_exec.induct)
  case (1 t i)
  from "1.prems" have le: "\<not> length t < i" by simp
  show ?case
  proof (cases "i = idx")
    case True
    with "1.prems"(3) le show ?thesis by (simp add: regex_exec.simps [of t idx])
  next
    case False
    with "1.prems" have none: "attempt_tag (drop i t) = None" and lt: "i + 1 \<le> idx" by simp_all
    from "1.prems"(4) have "\<forall>j. i + 1 \<le> j \<and> j < idx \<longrightarrow> attempt_tag (drop j t) = None" by simp
    from "1.IH" [OF le none lt "1.prems"(2,3) this] none le show ?thesis
      by (simp add: regex_exec.simps [of t i])
  qed
qed

lemma regex_exec_no_match:
  assumes "\<forall>j. i \<le> j \<and> j \<le> length t \<longrightarrow> attempt_tag (drop j t) = None"
  shows "regex_exec t i = None"
proof (cases "regex_exec t i")
  case None
  then show ?thesis .
next
  case (Some r)
  obtain idx g1 g2 k where "r = (idx, g1, g2, k)" by (cases r)
  with Some regex_exec_Some [of t i idx g1 g2 k] assms show ?thesis by auto
qed


lemma regex_exec_chip:
  assumes "regex_exec t li = Some (idx, g1, g2, k)"
  shows "\<exists>c rest. li \<le> idx \<and> idx < k \<and> k \<le> length t \<and> c \<noteq> [] \<and> drop k t = rest \<and>
           (g1 = Some c \<and> g2 = None \<and> CHR ''>'' \<notin> set c \<and> drop idx t = ''<'' @ c @ ''>'' @ rest \<or>
            g1 = None \<and> g2 = Some c \<and> CHR '']'' \<notin> set c \<and> drop idx t = ''['' @ c @ '']'' @ rest)"
proof -
  from regex_exec_Some [OF assms]
  have le: "li \<le> idx" "idx \<le> length t" "idx \<le> k"
    and att: "attempt_tag (drop idx t) = Some (g1, g2, k - idx)"
    by simp_all
  from attempt_tag_Some [OF att] obtain c rest where c: "c \<noteq> []" "k - idx = length c + 2"
    and alt: "g1 = Some c \<and> g2 = None \<and> CHR ''>'' \<notin> set c \<and> drop idx t = ''<'' @ c @ ''>'' @ rest \<or>
              g1 = None \<and> g2 = Some c \<and> CHR '']'' \<notin> set c \<and> drop idx t = ''['' @ c @ '']'' @ rest"
    by blast
  define d where "d = drop idx t"
  from alt have d: "d = ''<'' @ c @ ''>'' @ rest \<or> d = ''['' @ c @ '']'' @ rest"
    unfolding d_def by blast
  then have len_d: "length d = length c + 2 + length rest" by auto
  then have len: "length t - idx = length c + 2 + length rest" by (simp add: d_def)
  from c(2) le have k: "k = idx + (length c + 2)" by simp
  have "drop k t = drop (length c + 2) d"
    unfolding k d_def by (simp add: add.commute)
  also from d have "\<dots> = rest" by auto
  finally have "drop k t = rest" .
  moreover from len k have "k \<le> length t" by simp
  moreover from k have "idx < k" by simp
  ultimately show ?thesis using le(1) c(1) alt by blast
qed

subsection \<open>The loop\<close>

lemma parse_loop_step:
  assumes "regex_exec t li = Some (idx, g1, g2, k)"
  shows "parse_loop t li parts = parse_loop t k (parts @ emitted t li idx g1 g2)"
  by (subst parse_loop.simps) (simp add: assms Let_def emitted_def)

lemma parse_loop_stop:
  assumes "regex_exec t li = None"
  shows "parse_loop t li parts = parts @ (if drop li t \<noteq> [] then [Text (drop li t)] else [])"
  by (subst parse_loop.simps) (simp add: assms Let_def)

lemma emitted_source:
  assumes "regex_exec t li = Some (idx, g1, g2, k)"
  shows "concat (map part_source (emitted t li idx g1 g2)) @ drop k t = drop li t"
    and "list_all part_ok (emitted t li idx g1 g2)"
proof -
  from regex_exec_chip [OF assms] obtain c rest where le: "li \<le> idx" and rest: "drop k t = rest"
    and c: "c \<noteq> []"
    and alt: "g1 = Some c \<and> g2 = None \<and> CHR ''>'' \<notin> set c \<and> drop idx t = ''<'' @ c @ ''>'' @ rest \<or>
              g1 = None \<and> g2 = Some c \<and> CHR '']'' \<notin> set c \<and> drop idx t = ''['' @ c @ '']'' @ rest"
    by blast
  have split: "drop li t = take (idx - li) (drop li t) @ drop idx t"
  proof -
    have "drop (idx - li) (drop li t) = drop idx t" using le by simp
    then show ?thesis by (metis append_take_drop_id)
  qed
  from alt c rest have "concat (map part_source (emitted t li idx g1 g2)) @ drop k t
      = take (idx - li) (drop li t) @ drop idx t"
    by (auto simp: emitted_def)
  with split show "concat (map part_source (emitted t li idx g1 g2)) @ drop k t = drop li t"
    by simp
  from alt c show "list_all part_ok (emitted t li idx g1 g2)"
    by (auto simp: emitted_def)
qed

lemma parse_loop_source:
  "concat (map part_source (parse_loop t li parts)) = concat (map part_source parts) @ drop li t"
proof (induction "length t + 1 - li" arbitrary: li parts rule: less_induct)
  case less
  show ?case
  proof (cases "regex_exec t li")
    case None
    then show ?thesis by (simp add: parse_loop_stop)
  next
    case (Some r)
    obtain idx g1 g2 k where r: "regex_exec t li = Some (idx, g1, g2, k)"
      using Some by (cases r) auto
    from regex_exec_chip [OF r] have "li < k" "k \<le> length t" by auto
    then have "length t + 1 - k < length t + 1 - li" by simp
    from less [OF this, of "parts @ emitted t li idx g1 g2"] emitted_source(1) [OF r]
    show ?thesis by (simp add: parse_loop_step [OF r])
  qed
qed

lemma parse_loop_ok:
  "list_all part_ok parts \<Longrightarrow> list_all part_ok (parse_loop t li parts)"
proof (induction "length t + 1 - li" arbitrary: li parts rule: less_induct)
  case less
  show ?case
  proof (cases "regex_exec t li")
    case None
    with less.prems show ?thesis by (simp add: parse_loop_stop)
  next
    case (Some r)
    obtain idx g1 g2 k where r: "regex_exec t li = Some (idx, g1, g2, k)"
      using Some by (cases r) auto
    from regex_exec_chip [OF r] have "li < k" "k \<le> length t" by auto
    then have m: "length t + 1 - k < length t + 1 - li" by simp
    from less.prems emitted_source(2) [OF r]
    have "list_all part_ok (parts @ emitted t li idx g1 g2)" by simp
    from less.hyps [OF m this] show ?thesis by (simp add: parse_loop_step [OF r])
  qed
qed

lemma parse_loop_acc:
  "parse_loop t li parts = parts @ parse_loop t li []"
proof (induction "length t + 1 - li" arbitrary: li parts rule: less_induct)
  case less
  show ?case
  proof (cases "regex_exec t li")
    case None
    then show ?thesis by (simp add: parse_loop_stop)
  next
    case (Some r)
    obtain idx g1 g2 k where r: "regex_exec t li = Some (idx, g1, g2, k)"
      using Some by (cases r) auto
    from regex_exec_chip [OF r] have "li < k" "k \<le> length t" by auto
    then have m: "length t + 1 - k < length t + 1 - li" by simp
    have "parse_loop t li parts = parse_loop t k (parts @ emitted t li idx g1 g2)"
      by (rule parse_loop_step [OF r])
    also have "\<dots> = (parts @ emitted t li idx g1 g2) @ parse_loop t k []"
      by (rule less [OF m])
    also have "\<dots> = parts @ parse_loop t k ([] @ emitted t li idx g1 g2)"
      using less [OF m, of "emitted t li idx g1 g2"] by simp
    also have "\<dots> = parts @ parse_loop t li []"
      by (simp only: parse_loop_step [OF r, of "[]"])
    finally show ?thesis .
  qed
qed


lemma regex_exec_shift:
  "regex_exec (pre @ t) (length pre + i) =
     map_option (\<lambda>(idx, g1, g2, k). (length pre + idx, g1, g2, length pre + k)) (regex_exec t i)"
proof (cases "regex_exec t i")
  case None
  have "attempt_tag (drop j (pre @ t)) = None" if "length pre + i \<le> j \<and> j \<le> length (pre @ t)" for j
  proof -
    from that have "i \<le> j - length pre" "j - length pre \<le> length t" "length pre \<le> j" by auto
    with regex_exec_None [OF None, of "j - length pre"] show ?thesis by simp
  qed
  then have "regex_exec (pre @ t) (length pre + i) = None"
    by (intro regex_exec_no_match) blast
  with None show ?thesis by simp
next
  case (Some r)
  obtain idx g1 g2 k where r: "regex_exec t i = Some (idx, g1, g2, k)"
    using Some by (cases r) auto
  from regex_exec_Some [OF r]
  have le: "i \<le> idx" "idx \<le> length t" "idx \<le> k"
    and att: "attempt_tag (drop idx t) = Some (g1, g2, k - idx)"
    and none: "\<forall>j. i \<le> j \<and> j < idx \<longrightarrow> attempt_tag (drop j t) = None"
    by simp_all
  have none': "\<forall>j. length pre + i \<le> j \<and> j < length pre + idx \<longrightarrow> attempt_tag (drop j (pre @ t)) = None"
  proof (intro allI impI)
    fix j assume "length pre + i \<le> j \<and> j < length pre + idx"
    then have "i \<le> j - length pre \<and> j - length pre < idx" "length pre \<le> j" by auto
    with none show "attempt_tag (drop j (pre @ t)) = None" by simp
  qed
  have "regex_exec (pre @ t) (length pre + i) =
          Some (length pre + idx, g1, g2, length pre + idx + (k - idx))"
    using le att none' by (intro regex_exec_first) simp_all
  with r le show ?thesis by simp
qed

lemma emitted_shift:
  "emitted (pre @ t) (length pre + li) (length pre + idx) g1 g2 = emitted t li idx g1 g2"
  by (simp add: emitted_def)

lemma parse_loop_shift:
  "parse_loop (pre @ t) (length pre + li) parts = parse_loop t li parts"
proof (induction "length t + 1 - li" arbitrary: li parts rule: less_induct)
  case less
  show ?case
  proof (cases "regex_exec t li")
    case None
    then have "regex_exec (pre @ t) (length pre + li) = None"
      by (simp add: regex_exec_shift)
    with None show ?thesis by (simp add: parse_loop_stop)
  next
    case (Some r)
    obtain idx g1 g2 k where r: "regex_exec t li = Some (idx, g1, g2, k)"
      using Some by (cases r) auto
    then have r': "regex_exec (pre @ t) (length pre + li) = Some (length pre + idx, g1, g2, length pre + k)"
      by (simp add: regex_exec_shift)
    from regex_exec_chip [OF r] have "li < k" "k \<le> length t" by auto
    then have m: "length t + 1 - k < length t + 1 - li" by simp
    show ?thesis
      by (simp add: parse_loop_step [OF r] parse_loop_step [OF r'] emitted_shift less [OF m])
  qed
qed

lemma parse_first_match:
  assumes att: "attempt_tag (src @ rest) = Some (g1, g2, length src)"
    and first: "\<forall>j<length pre. attempt_tag (drop j (pre @ src @ rest)) = None"
  shows "parseMessageContent (pre @ src @ rest) =
           emitted (pre @ src @ rest) 0 (length pre) g1 g2 @ parseMessageContent rest"
proof -
  let ?t = "pre @ src @ rest"
  have "regex_exec ?t 0 = Some (length pre, g1, g2, length pre + length src)"
    using att first by (intro regex_exec_first) simp_all
  then have "parse_loop ?t 0 [] = parse_loop ?t (length pre + length src) ([] @ emitted ?t 0 (length pre) g1 g2)"
    by (rule parse_loop_step)
  also have "\<dots> = emitted ?t 0 (length pre) g1 g2 @ parse_loop ?t (length pre + length src) []"
    using parse_loop_acc [of ?t "length pre + length src" "emitted ?t 0 (length pre) g1 g2"] by simp
  also have "parse_loop ?t (length pre + length src) [] = parse_loop rest 0 []"
    using parse_loop_shift [of "pre @ src" rest 0 "[]"] by simp
  finally show ?thesis by (simp add: parseMessageContent_def)
qed

lemma parse_no_match:
  assumes "\<forall>j\<le>length t. attempt_tag (drop j t) = None"
  shows "parseMessageContent t = (if t = [] then [] else [Text t])"
proof -
  from assms have "regex_exec t 0 = None" by (intro regex_exec_no_match) simp
  then show ?thesis by (simp add: parseMessageContent_def parse_loop_stop)
qed

lemma refund_example:
  "parseMessageContent ''refund for <customer> and [order_id]'' =
     [Text ''refund for '', Span ''customer'', Text '' and '', Strong ''order_id'']"
  by code_simp

subsection \<open>Segments in order\<close>

text \<open>
  Claim C4, as stated, counts three segments for \<open>refund for <customer> and [order_id]\<close>. The
  renderer produces the four segments the claim goes on to list, so their number is not 3.
\<close>

theorem refund_has_four_segments:
  "length (parseMessageContent ''refund for <customer> and [order_id]'') \<noteq> 3"
  by (simp add: refund_example)

text \<open>
  Claim C4, amended. The segments of a message, each put back into its source form (a chip
  inside its brackets), concatenate to the message: the segments are in the order of the text,
  they do not overlap and nothing is nested or lost. When the expression matches at no
  position, the message is one plain run (no segment for the empty message). When the first
  position at which it matches is the end of \<open>pre\<close> and the match is \<open><c>\<close> (respectively
  \<open>[c]\<close>), the segments are the plain run \<open>pre\<close>, unless it is empty, then the glossary chip
  (respectively the unique-key chip) \<open>c\<close>, then the segments of the rest of the message after
  the closing bracket. Rendering \<open>refund for <customer> and [order_id]\<close> produces four segments
  in this order: plain text \<open>refund for \<close>, a glossary chip \<open>customer\<close>, plain text \<open> and \<close>,
  a unique-key chip \<open>order_id\<close>.
\<close>

theorem render_segments:
  "concat (map part_source (parseMessageContent text)) = text \<and>
   ((\<forall>j\<le>length text. attempt_tag (drop j text) = None) \<longrightarrow>
      parseMessageContent text = (if text = [] then [] else [Text text])) \<and>
   (c \<noteq> [] \<and> CHR ''>'' \<notin> set c \<and>
    (\<forall>j<length pre. attempt_tag (drop j (pre @ ''<'' @ c @ ''>'' @ rest)) = None) \<longrightarrow>
      parseMessageContent (pre @ ''<'' @ c @ ''>'' @ rest) =
        (if pre = [] then [] else [Text pre]) @ [Span c] @ parseMessageContent rest) \<and>
   (c \<noteq> [] \<and> CHR '']'' \<notin> set c \<and>
    (\<forall>j<length pre. attempt_tag (drop j (pre @ ''['' @ c @ '']'' @ rest)) = None) \<longrightarrow>
      parseMessageContent (pre @ ''['' @ c @ '']'' @ rest) =
        (if pre = [] then [] else [Text pre]) @ [Strong c] @ parseMessageContent rest) \<and>
   parseMessageContent ''refund for <customer> and [order_id]'' =
     [Text ''refund for '', Span ''customer'', Text '' and '', Strong ''order_id'']"
proof -
  have source: "concat (map part_source (parseMessageContent text)) = text"
    by (simp add: parseMessageContent_def parse_loop_source)
  have angle: "parseMessageContent (pre @ ''<'' @ c @ ''>'' @ rest) =
        (if pre = [] then [] else [Text pre]) @ [Span c] @ parseMessageContent rest"
    if c: "c \<noteq> []" "CHR ''>'' \<notin> set c"
      and first: "\<forall>j<length pre. attempt_tag (drop j (pre @ ''<'' @ c @ ''>'' @ rest)) = None"
  proof -
    let ?src = "''<'' @ c @ ''>''"
    have att: "attempt_tag (?src @ rest) = Some (Some c, None, length ?src)"
      using attempt_tag_angle [OF c, of rest] by simp
    have first': "\<forall>j<length pre. attempt_tag (drop j (pre @ ?src @ rest)) = None"
      using first by simp
    from parse_first_match [OF att first'] c(1) show ?thesis
      by (simp add: emitted_def)
  qed
  have square: "parseMessageContent (pre @ ''['' @ c @ '']'' @ rest) =
        (if pre = [] then [] else [Text pre]) @ [Strong c] @ parseMessageContent rest"
    if c: "c \<noteq> []" "CHR '']'' \<notin> set c"
      and first: "\<forall>j<length pre. attempt_tag (drop j (pre @ ''['' @ c @ '']'' @ rest)) = None"
  proof -
    let ?src = "''['' @ c @ '']''"
    have att: "attempt_tag (?src @ rest) = Some (None, Some c, length ?src)"
      using attempt_tag_square [OF c, of rest] by simp
    have first': "\<forall>j<length pre. attempt_tag (drop j (pre @ ?src @ rest)) = None"
      using first by simp
    from parse_first_match [OF att first'] c(1) show ?thesis
      by (simp add: emitted_def)
  qed
  show ?thesis
    using source parse_no_match [of "text"] angle square refund_example by blast
qed

theorem render_segments_witness:
  "parseMessageContent ''refund for <customer> and [order_id]'' =
     [Text ''refund for ''] @ [Span ''customer''] @ parseMessageContent '' and [order_id]'' \<and>
   parseMessageContent '' and [order_id]'' =
     [Text '' and ''] @ [Strong ''order_id''] @ parseMessageContent [] \<and>
   parseMessageContent ''no chips here'' = [Text ''no chips here'']"
proof -
  have "regex_exec ''refund for <customer> and [order_id]'' 0 = Some (11, Some ''customer'', None, 21)"
    by code_simp
  from regex_exec_Some [OF this]
  have a: "\<forall>j<length ''refund for ''.
      attempt_tag (drop j (''refund for '' @ ''<'' @ ''customer'' @ ''>'' @ '' and [order_id]'')) = None"
    by simp
  have "regex_exec '' and [order_id]'' 0 = Some (5, None, Some ''order_id'', 15)"
    by code_simp
  from regex_exec_Some [OF this]
  have b: "\<forall>j<length '' and ''.
      attempt_tag (drop j ('' and '' @ ''['' @ ''order_id'' @ '']'' @ [])) = None"
    by simp
  have "regex_exec ''no chips here'' 0 = None"
    by code_simp
  from regex_exec_None [OF this]
  have n: "\<forall>j\<le>length ''no chips here''. attempt_tag (drop j ''no chips here'') = None"
    by simp
  have 1: "parseMessageContent ''refund for <customer> and [order_id]'' =
     [Text ''refund for ''] @ [Span ''customer''] @ parseMessageContent '' and [order_id]''"
    using a render_segments [of "[]" "''customer''" "''refund for ''" "'' and [order_id]''"] by simp
  have 2: "parseMessageContent '' and [order_id]'' =
     [Text '' and ''] @ [Strong ''order_id''] @ parseMessageContent []"
    using b render_segments [of "[]" "''order_id''" "'' and ''" "[]"] by simp
  have 3: "parseMessageContent ''no chips here'' = [Text ''no chips here'']"
    using n render_segments [of "''no chips here''" "''x''" "[]" "[]"] by simp
  from 1 2 3 show ?thesis by blast
qed

subsection \<open>Well-formed segments\<close>

lemma only_empty_or_unmatched_drop:
  "only_empty_or_unmatched s \<Longrightarrow> only_empty_or_unmatched (drop j s)"
proof (induction s arbitrary: j)
  case Nil
  show ?case by simp
next
  case (Cons c cs)
  then show ?case by (cases j) simp_all
qed

lemma only_empty_or_unmatched_attempt:
  assumes "only_empty_or_unmatched s"
  shows "attempt_tag s = None"
proof (cases "attempt_tag s")
  case None
  then show ?thesis .
next
  case (Some r)
  obtain g1 g2 n where "attempt_tag s = Some (g1, g2, n)" using Some by (cases r) auto
  from attempt_tag_Some [OF this] obtain c rest where c: "c \<noteq> []"
    and alt: "CHR ''>'' \<notin> set c \<and> s = ''<'' @ c @ ''>'' @ rest \<or>
              CHR '']'' \<notin> set c \<and> s = ''['' @ c @ '']'' @ rest"
    by blast
  from c obtain x xs where x: "c = x # xs" by (cases c) auto
  from alt assms x have False by auto
  then show ?thesis ..
qed

text \<open>
  Claim C10. In the segments of any message, no plain run is empty, and the content of every
  chip is a non-empty string without the closing bracket of the chip's kind; in particular no
  chip is empty, so \<open><>\<close> and \<open>[]\<close> never become chips. A message in which every opening
  bracket is empty (its closing bracket comes next) or unmatched (no closing bracket of its
  kind follows it) is rendered as one plain run, the whole message.
\<close>

theorem segments_well_formed:
  "list_all part_ok (parseMessageContent text) \<and>
   Text [] \<notin> set (parseMessageContent text) \<and>
   Span [] \<notin> set (parseMessageContent text) \<and>
   Strong [] \<notin> set (parseMessageContent text) \<and>
   (only_empty_or_unmatched text \<longrightarrow>
      parseMessageContent text = (if text = [] then [] else [Text text]))"
proof -
  have ok: "list_all part_ok (parseMessageContent text)"
    by (simp add: parseMessageContent_def parse_loop_ok)
  then have "\<forall>p\<in>set (parseMessageContent text). part_ok p" by (simp add: list_all_iff)
  then have empty: "Text [] \<notin> set (parseMessageContent text)"
    "Span [] \<notin> set (parseMessageContent text)" "Strong [] \<notin> set (parseMessageContent text)"
    by fastforce+
  have "parseMessageContent text = (if text = [] then [] else [Text text])"
    if "only_empty_or_unmatched text"
    using that by (intro parse_no_match)
      (simp add: only_empty_or_unmatched_attempt only_empty_or_unmatched_drop)
  with ok empty show ?thesis by blast
qed

theorem segments_well_formed_witness:
  "only_empty_or_unmatched ''<> [] a> <b'' \<and>
   parseMessageContent ''<> [] a> <b'' = [Text ''<> [] a> <b'']"
proof -
  have h: "only_empty_or_unmatched ''<> [] a> <b''" by simp
  with segments_well_formed [of "''<> [] a> <b''"] show ?thesis by simp
qed

end
